theory Spec2Isabelle
  imports Main "HOL-Library.Multiset"
begin

section \<open>Cards (cards.py)\<close>

datatype CardType =
    EXPLODING_KITTEN | DEFUSE
  | ATTACK | SKIP | FAVOR | SHUFFLE | SEE_THE_FUTURE | NOPE
  | CAT_TACOCAT | CAT_CATTERMELON | CAT_HAIRY_POTATO | CAT_BEARD_CAT | CAT_RAINBOW_CAT

text \<open>A \<^verbatim>\<open>Card\<close> is a dataclass with the single field \<^verbatim>\<open>card_type\<close>; dataclass
  equality compares that field, so a card is its kind.\<close>

type_synonym Card = CardType

definition CAT_CARDS :: "CardType list" where
  "CAT_CARDS = [CAT_TACOCAT, CAT_CATTERMELON, CAT_HAIRY_POTATO, CAT_BEARD_CAT, CAT_RAINBOW_CAT]"

text \<open>The dict \<^verbatim>\<open>BASE_DECK_CONFIG\<close>, in insertion order.\<close>

definition BASE_DECK_CONFIG :: "(CardType \<times> nat) list" where
  "BASE_DECK_CONFIG =
     [(ATTACK, 4), (SKIP, 4), (FAVOR, 4), (SHUFFLE, 4), (SEE_THE_FUTURE, 5), (NOPE, 5),
      (CAT_TACOCAT, 4), (CAT_CATTERMELON, 4), (CAT_HAIRY_POTATO, 4), (CAT_BEARD_CAT, 4),
      (CAT_RAINBOW_CAT, 4)]"

definition DEFUSE_IN_DECK :: nat where
  "DEFUSE_IN_DECK = 2"

section \<open>The random source\<close>

text \<open>
  The program draws from Python's global generator. The model threads the generator's raw
  draws through every call as a list of naturals; a list that has run out keeps
  answering 0. \<^verbatim>\<open>randbelow n\<close> is the primitive behind \<^verbatim>\<open>random.randint\<close>,
  \<^verbatim>\<open>random.choice\<close> and \<^verbatim>\<open>random.shuffle\<close>; every call below has \<open>n > 0\<close>. Every theorem
  holds for every source.
\<close>

type_synonym rng = "nat list"

fun randbelow :: "nat \<Rightarrow> rng \<Rightarrow> nat \<times> rng" where
  "randbelow n [] = (0, [])"
| "randbelow n (r # rs) = (r mod n, rs)"

text \<open>\<^verbatim>\<open>random.randint(a, b)\<close> is \<^verbatim>\<open>a + randbelow(b - a + 1)\<close>; the program only calls it
  with \<^verbatim>\<open>a = 0\<close>.\<close>

definition randint0 :: "nat \<Rightarrow> rng \<Rightarrow> nat \<times> rng" where
  "randint0 b g = randbelow (b + 1) g"

text \<open>\<^verbatim>\<open>random.random() < p\<close>: the outcome of the comparison is one draw of the source.\<close>

fun rand_lt :: "rng \<Rightarrow> bool \<times> rng" where
  "rand_lt [] = (False, [])"
| "rand_lt (r # rs) = (odd r, rs)"

text \<open>
  \<^verbatim>\<open>random.shuffle(x)\<close>:
  \<^verbatim>\<open>for i in reversed(range(1, len(x))): j = randbelow(i + 1); x[i], x[j] = x[j], x[i]\<close>.
\<close>

fun shuffle_from :: "nat \<Rightarrow> 'a list \<Rightarrow> rng \<Rightarrow> 'a list \<times> rng" where
  "shuffle_from 0 xs g = (xs, g)"
| "shuffle_from (Suc i) xs g =
     (case randbelow (Suc (Suc i)) g of
        (j, g') \<Rightarrow> shuffle_from i (xs[Suc i := xs ! j, j := xs ! Suc i]) g')"

definition shuffle :: "'a list \<Rightarrow> rng \<Rightarrow> 'a list \<times> rng" where
  "shuffle xs g = shuffle_from (length xs - 1) xs g"

section \<open>Players and the game state (game.py)\<close>

datatype error = IndexError | TypeError | ZeroDivisionError | AttributeError

record Player =
  pid :: nat
  hand :: "Card list"
  alive :: bool

text \<open>\<^verbatim>\<open>Player.has_card\<close>, \<^verbatim>\<open>Player.count_card\<close>.\<close>

definition has_card :: "Player \<Rightarrow> CardType \<Rightarrow> bool" where
  "has_card p ct = list_ex (\<lambda>c. c = ct) (hand p)"

definition count_card :: "Player \<Rightarrow> CardType \<Rightarrow> nat" where
  "count_card p ct = length (filter (\<lambda>c. c = ct) (hand p))"

text \<open>\<^verbatim>\<open>Player.remove_card\<close> on the hand: pops the first card of the kind and returns it,
  or returns \<^verbatim>\<open>None\<close> and leaves the hand as it is.\<close>

fun remove_card :: "CardType \<Rightarrow> Card list \<Rightarrow> Card option \<times> Card list" where
  "remove_card ct [] = (None, [])"
| "remove_card ct (c # cs) =
     (if c = ct then (Some c, cs)
      else (case remove_card ct cs of (r, cs') \<Rightarrow> (r, c # cs')))"

text \<open>The keys of a \<^verbatim>\<open>Counter\<close>, in the order they were first seen.\<close>

fun first_seen :: "'a list \<Rightarrow> 'a list" where
  "first_seen [] = []"
| "first_seen (x # xs) = x # filter (\<lambda>y. y \<noteq> x) (first_seen xs)"

definition get_matching_cat_pairs :: "Player \<Rightarrow> CardType list" where
  "get_matching_cat_pairs p =
     (let cats = filter (\<lambda>c. c \<in> set CAT_CARDS) (hand p)
      in filter (\<lambda>ct. 2 \<le> length (filter (\<lambda>c. c = ct) cats)) (first_seen cats))"

text \<open>The top of the deck is the end of the list. The discard pile holds whatever
  \<^verbatim>\<open>execute_action\<close> appends to it, which is \<^verbatim>\<open>None\<close> when \<^verbatim>\<open>remove_card\<close> found
  no card.\<close>

record GameState =
  players :: "Player list"
  deck :: "Card list"
  discard :: "Card option list"
  current_player_idx :: nat
  turns_remaining :: int
  game_over :: bool
  winner :: "nat option"
  top_three_known_by :: "nat option"

text \<open>Player ids, indices, targets and positions are natural numbers: the code builds
  them with \<^verbatim>\<open>range\<close>, \<^verbatim>\<open>len\<close> and \<^verbatim>\<open>%\<close>, and \<^verbatim>\<open>get_legal_actions\<close> fills targets with
  player ids. A missing target of \<^verbatim>\<open>PlayCard\<close> is \<open>None\<close>.\<close>

datatype Action =
    PlayCard CardType "nat option" "CardType option"
  | PlayCatPair CardType nat
  | PlayNope
  | Pass
  | InsertExplodingKitten nat

record Game =
  num_players :: nat
  state :: GameState
  action_history :: "(nat \<times> Action) list"

definition alive_players :: "GameState \<Rightarrow> Player list" where
  "alive_players s = filter alive (players s)"

text \<open>\<^verbatim>\<open>GameState.peek_top\<close>: \<^verbatim>\<open>deck[-n:]\<close> when the deck has \<open>n\<close> cards, else the whole
  deck; \<^verbatim>\<open>deck[-0:]\<close> is the whole deck too.\<close>

definition peek_top :: "GameState \<Rightarrow> nat \<Rightarrow> Card list" where
  "peek_top s n =
     (if n \<le> length (deck s) \<and> n \<noteq> 0 then drop (length (deck s) - n) (deck s) else deck s)"

text \<open>\<^verbatim>\<open>list.insert(position, card)\<close> for a position that is not negative: a position past the
  end appends.\<close>

definition insert_card :: "Card \<Rightarrow> nat \<Rightarrow> Card list \<Rightarrow> Card list" where
  "insert_card c pos d = take pos d @ [c] @ drop pos d"

text \<open>\<^verbatim>\<open>GameState.shuffle_deck\<close>.\<close>

definition shuffle_deck :: "GameState \<Rightarrow> rng \<Rightarrow> GameState \<times> rng" where
  "shuffle_deck s g =
     (case shuffle (deck s) g of
        (d, g') \<Rightarrow> (s\<lparr>deck := d, top_three_known_by := None\<rparr>, g'))"

text \<open>A player of the list, changed in place.\<close>

definition upd_player :: "nat \<Rightarrow> (Player \<Rightarrow> Player) \<Rightarrow> GameState \<Rightarrow> GameState" where
  "upd_player i f s = s\<lparr>players := (players s)[i := f (players s ! i)]\<rparr>"

section \<open>Turn order\<close>

text \<open>
  A call that does not return has the value \<open>None\<close>; one that raises has the value
  \<open>Some (Inl e)\<close>.
\<close>

type_synonym 'a outcome = "(error + 'a) option"

text \<open>
  The loop of \<^verbatim>\<open>_advance_player\<close> and \<^verbatim>\<open>_do_attack\<close>:
  \<^verbatim>\<open>while not players[next_idx].alive: next_idx = (next_idx + 1) % num_players\<close>.
\<close>

partial_function (option) find_alive :: "Player list \<Rightarrow> nat \<Rightarrow> nat \<Rightarrow> (error + nat) option" where
  "find_alive ps n idx =
     (if length ps \<le> idx then Some (Inl IndexError)
      else if alive (ps ! idx) then Some (Inr idx)
      else if n = 0 then Some (Inl ZeroDivisionError)
      else find_alive ps n ((idx + 1) mod n))"

declare find_alive.simps [code]

definition next_alive :: "Game \<Rightarrow> nat outcome" where
  "next_alive g =
     (if num_players g = 0 then Some (Inl ZeroDivisionError)
      else find_alive (players (state g)) (num_players g)
             ((current_player_idx (state g) + 1) mod num_players g))"

definition advance_player :: "Game \<Rightarrow> Game outcome" where
  "advance_player g =
     (case next_alive g of
        None \<Rightarrow> None
      | Some (Inl e) \<Rightarrow> Some (Inl e)
      | Some (Inr k) \<Rightarrow> Some (Inr (g\<lparr>state := (state g)\<lparr>current_player_idx := k\<rparr>\<rparr>)))"

text \<open>\<^verbatim>\<open>_end_turn\<close>; \<^verbatim>\<open>_do_skip\<close> has the same body.\<close>

definition end_turn :: "Game \<Rightarrow> Game outcome" where
  "end_turn g =
     (let g1 = g\<lparr>state := (state g)\<lparr>turns_remaining := turns_remaining (state g) - 1\<rparr>\<rparr>
      in if turns_remaining (state g1) \<le> 0
         then (case advance_player g1 of
                 None \<Rightarrow> None
               | Some (Inl e) \<Rightarrow> Some (Inl e)
               | Some (Inr g2) \<Rightarrow> Some (Inr (g2\<lparr>state := (state g2)\<lparr>turns_remaining := 1\<rparr>\<rparr>)))
         else Some (Inr g1))"

definition do_skip :: "Game \<Rightarrow> Game outcome" where
  "do_skip g = end_turn g"

definition do_attack :: "Game \<Rightarrow> Game outcome" where
  "do_attack g =
     (case next_alive g of
        None \<Rightarrow> None
      | Some (Inl e) \<Rightarrow> Some (Inl e)
      | Some (Inr k) \<Rightarrow>
          Some (Inr (g\<lparr>state := (state g)\<lparr>current_player_idx := k, turns_remaining := 2\<rparr>\<rparr>)))"

definition check_game_over :: "Game \<Rightarrow> Game" where
  "check_game_over g =
     (case alive_players (state g) of
        [p] \<Rightarrow> g\<lparr>state := (state g)\<lparr>game_over := True, winner := Some (pid p)\<rparr>\<rparr>
      | _ \<Rightarrow> g)"

section \<open>Applying an action\<close>

definition with_rng :: "rng \<Rightarrow> Game outcome \<Rightarrow> (Game \<times> rng) outcome" where
  "with_rng r out = map_option (map_sum (\<lambda>e. e) (\<lambda>g. (g, r))) out"

text \<open>
  \<^verbatim>\<open>_do_draw\<close>. The position at which a defused kitten goes back is
  \<^verbatim>\<open>random.randint(0, len(deck))\<close>, read after the kitten was popped.
\<close>

definition do_draw :: "Game \<Rightarrow> rng \<Rightarrow> (Game \<times> rng) outcome" where
  "do_draw g r =
     (let s = state g; i = current_player_idx s in
      if length (players s) \<le> i then Some (Inl IndexError)
      else if deck s = [] then with_rng r (end_turn g)
      else
        let drawn = last (deck s); s1 = s\<lparr>deck := butlast (deck s)\<rparr> in
        if drawn = EXPLODING_KITTEN then
          if has_card (players s1 ! i) DEFUSE then
            (case remove_card DEFUSE (hand (players s1 ! i)) of
               (defuse, h) \<Rightarrow>
                 let s2 = upd_player i (\<lambda>p. p\<lparr>hand := h\<rparr>) s1;
                     s3 = s2\<lparr>discard := discard s2 @ [defuse]\<rparr>
                 in (case randint0 (length (deck s3)) r of
                       (pos, r') \<Rightarrow>
                         with_rng r'
                           (end_turn (g\<lparr>state := s3\<lparr>deck := insert_card drawn pos (deck s3)\<rparr>\<rparr>))))
          else
            (let s2 = upd_player i (\<lambda>p. p\<lparr>alive := False\<rparr>) s1
             in with_rng r (end_turn (g\<lparr>state := s2\<lparr>discard := discard s2 @ [Some drawn]\<rparr>\<rparr>)))
        else
          with_rng r (end_turn (g\<lparr>state := upd_player i (\<lambda>p. p\<lparr>hand := hand p @ [drawn]\<rparr>) s1\<rparr>)))"

text \<open>
  The transfer shared by Favor and the cat pair:
  \<^verbatim>\<open>target = players[target_player_id]\<close>, and when the target's hand is not empty
  \<^verbatim>\<open>stolen = target.hand.pop(random.randint(0, len(target.hand) - 1)); player.hand.append(stolen)\<close>.
  The two updates are made one after the other, as the code makes them, so a target that is
  the acting player is handled as the code handles it.
\<close>

definition steal :: "nat \<Rightarrow> nat \<Rightarrow> GameState \<Rightarrow> rng \<Rightarrow> error + (GameState \<times> rng)" where
  "steal i t s r =
     (if length (players s) \<le> t then Inl IndexError
      else if hand (players s ! t) = [] then Inr (s, r)
      else
        (case randint0 (length (hand (players s ! t)) - 1) r of
           (k, r') \<Rightarrow>
             let stolen = hand (players s ! t) ! k;
                 s1 = upd_player t (\<lambda>p. p\<lparr>hand := take k (hand p) @ drop (Suc k) (hand p)\<rparr>) s;
                 s2 = upd_player i (\<lambda>p. p\<lparr>hand := hand p @ [stolen]\<rparr>) s1
             in Inr (s2, r')))"

definition steal_game :: "nat \<Rightarrow> nat \<Rightarrow> Game \<Rightarrow> rng \<Rightarrow> (Game \<times> rng) outcome" where
  "steal_game i t g r =
     (case steal i t (state g) r of
        Inl e \<Rightarrow> Some (Inl e)
      | Inr (s, r') \<Rightarrow> Some (Inr (g\<lparr>state := s\<rparr>, r')))"

text \<open>The effect of a played card, after the card has left the hand (the
  \<^verbatim>\<open>if\<close>/\<^verbatim>\<open>elif\<close> chain on \<^verbatim>\<open>action.card_type\<close>; a kind outside the chain has no effect).\<close>

definition play_effect :: "nat \<Rightarrow> CardType \<Rightarrow> nat option \<Rightarrow> Game \<Rightarrow> rng \<Rightarrow> (Game \<times> rng) outcome" where
  "play_effect i ct tgt g r =
     (if ct = ATTACK then with_rng r (do_attack g)
      else if ct = SKIP then with_rng r (do_skip g)
      else if ct = SHUFFLE then
        (case shuffle_deck (state g) r of (s, r') \<Rightarrow> Some (Inr (g\<lparr>state := s\<rparr>, r')))
      else if ct = SEE_THE_FUTURE then
        Some (Inr (g\<lparr>state := (state g)\<lparr>top_three_known_by :=
                                          Some (pid (players (state g) ! i))\<rparr>\<rparr>, r))
      else if ct = FAVOR then
        (case tgt of
           None \<Rightarrow> Some (Inl TypeError)
         | Some t \<Rightarrow> steal_game i t g r)
      else Some (Inr (g, r)))"

text \<open>The branches of \<^verbatim>\<open>execute_action\<close>, for the player at index \<open>i\<close>.\<close>

fun apply_action :: "nat \<Rightarrow> Action \<Rightarrow> Game \<Rightarrow> rng \<Rightarrow> (Game \<times> rng) outcome" where
  "apply_action i Pass g r = do_draw g r"
| "apply_action i (PlayCard ct tgt stl) g r =
     (case remove_card ct (hand (players (state g) ! i)) of
        (played, h) \<Rightarrow>
          let s1 = upd_player i (\<lambda>p. p\<lparr>hand := h\<rparr>) (state g);
              g1 = g\<lparr>state := s1\<lparr>discard := discard s1 @ [played]\<rparr>\<rparr>
          in play_effect i ct tgt g1 r)"
| "apply_action i (PlayCatPair cat t) g r =
     (let s1 = upd_player i (\<lambda>p. p\<lparr>hand := snd (remove_card cat (hand p))\<rparr>) (state g);
          s2 = upd_player i (\<lambda>p. p\<lparr>hand := snd (remove_card cat (hand p))\<rparr>) s1;
          s3 = s2\<lparr>discard := discard s2 @ [Some cat, Some cat]\<rparr>
      in steal_game i t (g\<lparr>state := s3\<rparr>) r)"
| "apply_action i (InsertExplodingKitten pos) g r =
     Some (Inr (g\<lparr>state := (state g)\<lparr>deck := insert_card EXPLODING_KITTEN pos (deck (state g))\<rparr>\<rparr>, r))"
| "apply_action i PlayNope g r = Some (Inr (g, r))"

text \<open>The end of \<^verbatim>\<open>execute_action\<close>: the action is logged and the win condition checked.\<close>

definition finish :: "nat \<Rightarrow> Action \<Rightarrow> Game \<Rightarrow> Game" where
  "finish p a g = check_game_over (g\<lparr>action_history := action_history g @ [(p, a)]\<rparr>)"

text \<open>
  \<^verbatim>\<open>Game.execute_action\<close>. The model returns the game after the call and the random source
  left; the info dictionary the code returns reads the state and does not change it.
\<close>

definition execute_action :: "Action \<Rightarrow> Game \<Rightarrow> rng \<Rightarrow> (Game \<times> rng) outcome" where
  "execute_action a g r =
     (let i = current_player_idx (state g) in
      if length (players (state g)) \<le> i then Some (Inl IndexError)
      else
        (case apply_action i a g r of
           None \<Rightarrow> None
         | Some (Inl e) \<Rightarrow> Some (Inl e)
         | Some (Inr (g', r')) \<Rightarrow> Some (Inr (finish (pid (players (state g) ! i)) a g', r'))))"

text \<open>\<^verbatim>\<open>Game.get_legal_actions()\<close> for the current player (\<^verbatim>\<open>player_id = None\<close>).\<close>

definition eligible :: "nat \<Rightarrow> Player \<Rightarrow> bool" where
  "eligible player_id other = (pid other \<noteq> player_id \<and> alive other \<and> hand other \<noteq> [])"

definition get_legal_actions :: "Game \<Rightarrow> error + Action list" where
  "get_legal_actions g =
     (let player_id = current_player_idx (state g) in
      if length (players (state g)) \<le> player_id then Inl IndexError
      else
        let player = players (state g) ! player_id in
        Inr ([Pass]
             @ map (\<lambda>ct. PlayCard ct None None)
                 (filter (has_card player) [ATTACK, SKIP, SHUFFLE, SEE_THE_FUTURE])
             @ (if has_card player FAVOR
                then map (\<lambda>other. PlayCard FAVOR (Some (pid other)) None)
                       (filter (eligible player_id) (players (state g)))
                else [])
             @ concat (map (\<lambda>cat_type. map (\<lambda>other. PlayCatPair cat_type (pid other))
                                          (filter (eligible player_id) (players (state g))))
                         (get_matching_cat_pairs player))))"

definition is_over :: "Game \<Rightarrow> bool" where
  "is_over g = game_over (state g)"

definition get_winner :: "Game \<Rightarrow> nat option" where
  "get_winner g = winner (state g)"

text \<open>The card count of the conservation property:
  \<^verbatim>\<open>len(deck) + sum(len(hand) for all players) + len(discard)\<close>.\<close>

definition total_cards :: "Game \<Rightarrow> nat" where
  "total_cards g =
     length (deck (state g)) + sum_list (map (\<lambda>p. length (hand p)) (players (state g)))
       + length (discard (state g))"

section \<open>Setting up a game\<close>

definition base_deck :: "Card list" where
  "base_deck = concat (map (\<lambda>(card_type, count). replicate count card_type) BASE_DECK_CONFIG)"

text \<open>\<^verbatim>\<open>for _ in range(k): player.hand.append(deck.pop())\<close>; popping an empty list raises.\<close>

fun draw_n :: "nat \<Rightarrow> Card list \<Rightarrow> Card list \<Rightarrow> error + (Card list \<times> Card list)" where
  "draw_n 0 h d = Inr (h, d)"
| "draw_n (Suc k) h d = (if d = [] then Inl IndexError else draw_n k (h @ [last d]) (butlast d))"

fun deal_hands :: "Player list \<Rightarrow> Card list \<Rightarrow> error + (Player list \<times> Card list)" where
  "deal_hands [] d = Inr ([], d)"
| "deal_hands (p # ps) d =
     (case draw_n 4 (hand p) d of
        Inl e \<Rightarrow> Inl e
      | Inr (h, d') \<Rightarrow>
          (case deal_hands ps d' of
             Inl e \<Rightarrow> Inl e
           | Inr (ps', d'') \<Rightarrow> Inr (p\<lparr>hand := h @ [DEFUSE]\<rparr> # ps', d'')))"

text \<open>\<^verbatim>\<open>Game._setup_game\<close>. There is no check of \<^verbatim>\<open>num_players\<close>;
  \<^verbatim>\<open>range(num_players - 1)\<close> is empty when \<^verbatim>\<open>num_players\<close> is 0.\<close>

definition setup_game :: "nat \<Rightarrow> rng \<Rightarrow> error + (GameState \<times> rng)" where
  "setup_game n r =
     (let ps = map (\<lambda>i. \<lparr>pid = i, hand = [], alive = True\<rparr>) [0..<n] in
      case shuffle base_deck r of
        (d1, r1) \<Rightarrow>
          (case deal_hands ps d1 of
             Inl e \<Rightarrow> Inl e
           | Inr (ps', d2) \<Rightarrow>
               (case shuffle (d2 @ replicate DEFUSE_IN_DECK DEFUSE) r1 of
                  (d3, r2) \<Rightarrow>
                    (case shuffle (d3 @ replicate (n - 1) EXPLODING_KITTEN) r2 of
                       (d4, r3) \<Rightarrow>
                         Inr (\<lparr>players = ps', deck = d4, discard = [], current_player_idx = 0,
                               turns_remaining = 1, game_over = False, winner = None,
                               top_three_known_by = None\<rparr>, r3)))))"

text \<open>\<^verbatim>\<open>Game.__init__\<close>; the random source is the generator after the optional seeding.\<close>

definition new_game :: "nat \<Rightarrow> rng \<Rightarrow> error + (Game \<times> rng)" where
  "new_game n r =
     (case setup_game n r of
        Inl e \<Rightarrow> Inl e
      | Inr (s, r') \<Rightarrow> Inr (\<lparr>num_players = n, state = s, action_history = []\<rparr>, r'))"

section \<open>Determinization (mcts\_agent.py)\<close>

text \<open>\<^verbatim>\<open>clone_game\<close> rebuilds every card as \<^verbatim>\<open>Card(c.card_type)\<close>: the copy is equal to the
  game, and reading \<^verbatim>\<open>card_type\<close> of a \<^verbatim>\<open>None\<close> in the discard pile raises.\<close>

definition clone_game :: "Game \<Rightarrow> error + Game" where
  "clone_game g = (if None \<in> set (discard (state g)) then Inl AttributeError else Inr g)"

definition hidden_from :: "nat \<Rightarrow> Player \<Rightarrow> bool" where
  "hidden_from observer_id p = (pid p \<noteq> observer_id \<and> alive p)"

text \<open>\<^verbatim>\<open>for _ in range(k): if unknown_cards: player.hand.append(unknown_cards.pop())\<close>.\<close>

fun take_cards :: "nat \<Rightarrow> Card list \<Rightarrow> Card list \<Rightarrow> Card list \<times> Card list" where
  "take_cards 0 h pool = (h, pool)"
| "take_cards (Suc k) h pool =
     (if pool \<noteq> [] then take_cards k (h @ [last pool]) (butlast pool) else take_cards k h pool)"

text \<open>The redistribution loop; \<open>orig\<close> is \<^verbatim>\<open>game.state.players\<close>, read at index
  \<^verbatim>\<open>player.id\<close>.\<close>

fun redistribute ::
  "Player list \<Rightarrow> nat \<Rightarrow> Player list \<Rightarrow> Card list \<Rightarrow> error + (Player list \<times> Card list)" where
  "redistribute orig observer_id [] pool = Inr ([], pool)"
| "redistribute orig observer_id (p # ps) pool =
     (if hidden_from observer_id p then
        (if length orig \<le> pid p then Inl IndexError
         else
           (case take_cards (length (hand (orig ! pid p))) (hand p) pool of
              (h, pool') \<Rightarrow>
                (case redistribute orig observer_id ps pool' of
                   Inl e \<Rightarrow> Inl e
                 | Inr (ps', pool'') \<Rightarrow> Inr (p\<lparr>hand := h\<rparr> # ps', pool''))))
      else
        (case redistribute orig observer_id ps pool of
           Inl e \<Rightarrow> Inl e
         | Inr (ps', pool') \<Rightarrow> Inr (p # ps', pool')))"

definition determinize_game :: "Game \<Rightarrow> nat \<Rightarrow> rng \<Rightarrow> error + (Game \<times> rng)" where
  "determinize_game g observer_id r =
     (case clone_game g of
        Inl e \<Rightarrow> Inl e
      | Inr det_game \<Rightarrow>
          let s = state det_game;
              from_hands = concat (map hand (filter (hidden_from observer_id) (players s)));
              ps1 = map (\<lambda>p. if hidden_from observer_id p then p\<lparr>hand := []\<rparr> else p) (players s);
              observer_knows_top = (top_three_known_by s = Some observer_id);
              keep = (observer_knows_top \<and> 3 \<le> length (deck s));
              top_three = drop (length (deck s) - 3) (deck s);
              unknown_cards =
                from_hands @ (if keep then take (length (deck s) - 3) (deck s) else deck s)
          in case shuffle unknown_cards r of
               (pool, r') \<Rightarrow>
                 (case redistribute (players (state g)) observer_id ps1 pool of
                    Inl e \<Rightarrow> Inl e
                  | Inr (ps2, rest) \<Rightarrow>
                      Inr (det_game\<lparr>state := s\<lparr>players := ps2,
                             deck := rest @ (if observer_knows_top \<and> 3 \<le> length (deck (state g))
                                             then top_three else [])\<rparr>\<rparr>, r')))"

section \<open>Playouts\<close>

text \<open>
  The loop of \<^verbatim>\<open>simulate_random_playout\<close>, with the counter \<^verbatim>\<open>moves\<close>; it returns the game,
  the number of actions executed and the random source left.
\<close>

function random_playout_loop :: "nat \<Rightarrow> nat \<Rightarrow> Game \<Rightarrow> rng \<Rightarrow> (Game \<times> nat \<times> rng) outcome" where
  "random_playout_loop max_moves moves g r =
     (if \<not> is_over g \<and> moves < max_moves then
        (case get_legal_actions g of
           Inl e \<Rightarrow> Some (Inl e)
         | Inr legal_actions \<Rightarrow>
             if legal_actions = [] then Some (Inr (g, moves, r))
             else
               (case randbelow (length legal_actions) r of
                  (k, r1) \<Rightarrow>
                    (case execute_action (legal_actions ! k) g r1 of
                       None \<Rightarrow> None
                     | Some (Inl e) \<Rightarrow> Some (Inl e)
                     | Some (Inr (g', r2)) \<Rightarrow> random_playout_loop max_moves (moves + 1) g' r2)))
      else Some (Inr (g, moves, r)))"
  by pat_completeness auto
termination
  by (relation "measure (\<lambda>(max_moves, moves, g, r). max_moves - moves)") auto

text \<open>The value is the winner, then the number of actions executed, the game and the
  random source.\<close>

definition simulate_random_playout ::
  "Game \<Rightarrow> nat \<Rightarrow> rng \<Rightarrow> (nat option \<times> nat \<times> Game \<times> rng) outcome" where
  "simulate_random_playout g max_moves r =
     (case random_playout_loop max_moves 0 g r of
        None \<Rightarrow> None
      | Some (Inl e) \<Rightarrow> Some (Inl e)
      | Some (Inr (g', moves, r')) \<Rightarrow> Some (Inr (get_winner g', moves, g', r')))"

text \<open>\<^verbatim>\<open>for action in legal_actions: if P(action): if random.random() < p: return action\<close>.\<close>

fun try_random :: "(Action \<Rightarrow> bool) \<Rightarrow> Action list \<Rightarrow> rng \<Rightarrow> Action option \<times> rng" where
  "try_random P [] r = (None, r)"
| "try_random P (a # as) r =
     (if P a then
        (case rand_lt r of (b, r') \<Rightarrow> if b then (Some a, r') else try_random P as r')
      else try_random P as r)"

fun is_play_of :: "CardType list \<Rightarrow> Action \<Rightarrow> bool" where
  "is_play_of cts (PlayCard ct tgt stl) = (ct \<in> set cts)"
| "is_play_of cts a = False"

fun is_cat_pair :: "Action \<Rightarrow> bool" where
  "is_cat_pair (PlayCatPair cat t) = True"
| "is_cat_pair a = False"

text \<open>
  \<^verbatim>\<open>select_heuristic_action\<close>, block by block. The first two blocks return the first
  matching action and draw nothing from the random source.
\<close>

definition urgent_action :: "Game \<Rightarrow> Action list \<Rightarrow> Action option" where
  "urgent_action g legal_actions =
     (let s = state g; player = players s ! current_player_idx s;
          deck_size = length (deck s); has_defuse = has_card player DEFUSE
      in if deck_size \<le> 3 \<and> \<not> has_defuse
         then find (is_play_of [SKIP, ATTACK]) legal_actions else None)"

definition escape_action :: "Game \<Rightarrow> Action list \<Rightarrow> Action option" where
  "escape_action g legal_actions =
     (let s = state g; player = players s ! current_player_idx s
      in if top_three_known_by s = Some (pid player)
            \<and> list_ex (\<lambda>c. c = EXPLODING_KITTEN) (take 1 (peek_top s 3))
         then find (is_play_of [SHUFFLE, SKIP, ATTACK]) legal_actions else None)"

text \<open>The last block: \<^verbatim>\<open>random.choice(legal_actions)\<close>, which raises on an empty list.\<close>

definition random_choice :: "Action list \<Rightarrow> rng \<Rightarrow> error + (Action \<times> rng)" where
  "random_choice legal_actions r =
     (if legal_actions = [] then Inl IndexError
      else (case randbelow (length legal_actions) r of (k, r') \<Rightarrow> Inr (legal_actions ! k, r')))"

text \<open>The three blocks that ask \<^verbatim>\<open>random.random()\<close>: See the Future when the top is not
  known to the player, then Attack, then a cat pair.\<close>

definition random_blocks :: "Game \<Rightarrow> Action list \<Rightarrow> rng \<Rightarrow> error + (Action \<times> rng)" where
  "random_blocks g legal_actions r =
     (let s = state g; player = players s ! current_player_idx s in
      case (if top_three_known_by s \<noteq> Some (pid player)
            then try_random (is_play_of [SEE_THE_FUTURE]) legal_actions r
            else (None, r)) of
        (Some a, r1) \<Rightarrow> Inr (a, r1)
      | (None, r1) \<Rightarrow>
          (case try_random (is_play_of [ATTACK]) legal_actions r1 of
             (Some a, r2) \<Rightarrow> Inr (a, r2)
           | (None, r2) \<Rightarrow>
               (case try_random is_cat_pair legal_actions r2 of
                  (Some a, r3) \<Rightarrow> Inr (a, r3)
                | (None, r3) \<Rightarrow> random_choice legal_actions r3)))"

definition select_heuristic_action :: "Game \<Rightarrow> Action list \<Rightarrow> rng \<Rightarrow> error + (Action \<times> rng)" where
  "select_heuristic_action g legal_actions r =
     (if length (players (state g)) \<le> current_player_idx (state g) then Inl IndexError
      else
        (case urgent_action g legal_actions of
           Some a \<Rightarrow> Inr (a, r)
         | None \<Rightarrow>
             (case escape_action g legal_actions of
                Some a \<Rightarrow> Inr (a, r)
              | None \<Rightarrow> random_blocks g legal_actions r)))"

function heuristic_playout_loop :: "nat \<Rightarrow> nat \<Rightarrow> Game \<Rightarrow> rng \<Rightarrow> (Game \<times> nat \<times> rng) outcome" where
  "heuristic_playout_loop max_moves moves g r =
     (if \<not> is_over g \<and> moves < max_moves then
        (case get_legal_actions g of
           Inl e \<Rightarrow> Some (Inl e)
         | Inr legal_actions \<Rightarrow>
             if legal_actions = [] then Some (Inr (g, moves, r))
             else
               (case select_heuristic_action g legal_actions r of
                  Inl e \<Rightarrow> Some (Inl e)
                | Inr (a, r1) \<Rightarrow>
                    (case execute_action a g r1 of
                       None \<Rightarrow> None
                     | Some (Inl e) \<Rightarrow> Some (Inl e)
                     | Some (Inr (g', r2)) \<Rightarrow> heuristic_playout_loop max_moves (moves + 1) g' r2)))
      else Some (Inr (g, moves, r)))"
  by pat_completeness auto
termination
  by (relation "measure (\<lambda>(max_moves, moves, g, r). max_moves - moves)") auto

text \<open>\<^verbatim>\<open>simulate_with_heuristics\<close>; its parameter \<^verbatim>\<open>player_id\<close> is never read.\<close>

definition simulate_with_heuristics ::
  "Game \<Rightarrow> nat \<Rightarrow> nat \<Rightarrow> rng \<Rightarrow> (nat option \<times> nat \<times> Game \<times> rng) outcome" where
  "simulate_with_heuristics g player_id max_moves r =
     (case heuristic_playout_loop max_moves 0 g r of
        None \<Rightarrow> None
      | Some (Inl e) \<Rightarrow> Some (Inl e)
      | Some (Inr (g', moves, r')) \<Rightarrow> Some (Inr (get_winner g', moves, g', r')))"

section \<open>Properties of states\<close>

text \<open>\<open>k\<close> is the first index, counting cyclically from \<open>start\<close>, whose player is alive.\<close>

definition first_alive_from :: "Player list \<Rightarrow> nat \<Rightarrow> nat \<Rightarrow> bool" where
  "first_alive_from ps start k \<longleftrightarrow>
     (\<exists>d<length ps. k = (start + d) mod length ps \<and> alive (ps ! k)
        \<and> (\<forall>e<d. \<not> alive (ps ! ((start + e) mod length ps))))"

definition set_turn :: "nat \<Rightarrow> int \<Rightarrow> Game \<Rightarrow> Game" where
  "set_turn k t g = g\<lparr>state := (state g)\<lparr>current_player_idx := k, turns_remaining := t\<rparr>\<rparr>"

definition kittens_in_deck :: "GameState \<Rightarrow> nat" where
  "kittens_in_deck s = length (filter (\<lambda>c. c = EXPLODING_KITTEN) (deck s))"

text \<open>The exploding kittens in circulation: in the deck and in the hands of alive players.\<close>

definition kittens_in_circulation :: "GameState \<Rightarrow> nat" where
  "kittens_in_circulation s =
     kittens_in_deck s
       + sum_list (map (\<lambda>p. length (filter (\<lambda>c. c = EXPLODING_KITTEN) (hand p))) (alive_players s))"

text \<open>
  What the engine keeps true of a game it has set up and played by legal actions:
  \<^verbatim>\<open>num_players\<close> is the number of players, the current index is in range, the player at
  index \<open>i\<close> has id \<open>i\<close>, the deck holds fewer exploding kittens than there are alive
  players, the discard pile holds cards only, and a game that is not over has no winner.
\<close>

definition game_inv :: "Game \<Rightarrow> bool" where
  "game_inv g \<longleftrightarrow>
     num_players g = length (players (state g)) \<and>
     current_player_idx (state g) < length (players (state g)) \<and>
     map pid (players (state g)) = [0..<length (players (state g))] \<and>
     kittens_in_deck (state g) < length (alive_players (state g)) \<and>
     None \<notin> set (discard (state g)) \<and>
     (winner (state g) = None \<or> game_over (state g))"

definition is_legal :: "Game \<Rightarrow> Action \<Rightarrow> bool" where
  "is_legal g a = (case get_legal_actions g of Inl e \<Rightarrow> False | Inr legal \<Rightarrow> a \<in> set legal)"

text \<open>The games reached from \<open>g0\<close> by executing legal actions, under any random source.\<close>

inductive reachable :: "Game \<Rightarrow> Game \<Rightarrow> bool" for g0 :: Game where
  start: "reachable g0 g0"
| step: "reachable g0 g \<Longrightarrow> is_legal g a \<Longrightarrow> execute_action a g r = Some (Inr (g', r'))
           \<Longrightarrow> reachable g0 g'"

section \<open>Auxiliary definitions\<close>

text \<open>What the turn operations need of a game: \<^verbatim>\<open>num_players\<close> is the number of players,
  the current index is in range and some player is alive.\<close>

definition turn_ready :: "Game \<Rightarrow> bool" where
  "turn_ready g \<longleftrightarrow>
     num_players g = length (players (state g)) \<and>
     current_player_idx (state g) < length (players (state g)) \<and>
     (\<exists>j<length (players (state g)). alive (players (state g) ! j))"

text \<open>The index at which the search for the next alive player starts.\<close>

definition next_start :: "Game \<Rightarrow> nat" where
  "next_start g = (current_player_idx (state g) + 1) mod length (players (state g))"

text \<open>The cards in all hands.\<close>

definition hand_total :: "Player list \<Rightarrow> nat" where
  "hand_total ps = sum_list (map (\<lambda>p. length (hand p)) ps)"

text \<open>The part of \<^verbatim>\<open>_do_draw\<close> before \<^verbatim>\<open>_end_turn\<close>: the game and the random source once
  the drawn card is resolved.\<close>

definition draw_resolve :: "Game \<Rightarrow> rng \<Rightarrow> Game \<times> rng" where
  "draw_resolve g r =
     (let s = state g; i = current_player_idx s in
      if deck s = [] then (g, r)
      else
        let drawn = last (deck s); s1 = s\<lparr>deck := butlast (deck s)\<rparr> in
        if drawn = EXPLODING_KITTEN then
          if has_card (players s1 ! i) DEFUSE then
            (case remove_card DEFUSE (hand (players s1 ! i)) of
               (defuse, h) \<Rightarrow>
                 let s2 = upd_player i (\<lambda>p. p\<lparr>hand := h\<rparr>) s1;
                     s3 = s2\<lparr>discard := discard s2 @ [defuse]\<rparr>
                 in (case randint0 (length (deck s3)) r of
                       (pos, r') \<Rightarrow> (g\<lparr>state := s3\<lparr>deck := insert_card drawn pos (deck s3)\<rparr>\<rparr>, r')))
          else
            (let s2 = upd_player i (\<lambda>p. p\<lparr>alive := False\<rparr>) s1
             in (g\<lparr>state := s2\<lparr>discard := discard s2 @ [Some drawn]\<rparr>\<rparr>, r))
        else (g\<lparr>state := upd_player i (\<lambda>p. p\<lparr>hand := hand p @ [drawn]\<rparr>) s1\<rparr>, r))"

text \<open>\<open>p'\<close> is \<open>p\<close> after the deal from the deck \<open>d\<close>: four of its cards and a Defuse
  more in the hand.\<close>

definition dealt :: "Card list \<Rightarrow> Player \<Rightarrow> Player \<Rightarrow> bool" where
  "dealt d p p' \<longleftrightarrow>
     pid p' = pid p \<and> alive p' = alive p \<and>
     (\<exists>cs. hand p' = hand p @ cs @ [DEFUSE] \<and> length cs = 4 \<and> set cs \<subseteq> set d)"

text \<open>\<^verbatim>\<open>[Player(id=i) for i in range(n)]\<close>.\<close>

definition fresh_players :: "nat \<Rightarrow> Player list" where
  "fresh_players n = map (\<lambda>i. \<lparr>pid = i, hand = [], alive = True\<rparr>) [0..<n]"

text \<open>The game after the played card has left the hand for the discard pile.\<close>

definition card_played :: "CardType \<Rightarrow> Game \<Rightarrow> Game" where
  "card_played ct g =
     (let i = current_player_idx (state g) in
      g\<lparr>state := (upd_player i (\<lambda>p. p\<lparr>hand := remove1 ct (hand p)\<rparr>) (state g))
                    \<lparr>discard := discard (state g) @ [Some ct]\<rparr>\<rparr>)"

text \<open>
  The part of the engine's invariant that the state machine relies on, without the
  condition on the discard pile: \<^verbatim>\<open>num_players\<close> is the number of players, the current
  index is in range, the player at index \<open>i\<close> has id \<open>i\<close>, the deck holds fewer exploding
  kittens than there are alive players, and a game that is not over has no winner.
\<close>

definition play_inv :: "Game \<Rightarrow> bool" where
  "play_inv g \<longleftrightarrow>
     num_players g = length (players (state g)) \<and>
     current_player_idx (state g) < length (players (state g)) \<and>
     map pid (players (state g)) = [0..<length (players (state g))] \<and>
     kittens_in_deck (state g) < length (alive_players (state g)) \<and>
     (winner (state g) = None \<or> game_over (state g))"

text \<open>
  The actions a search tree stores, whether or not they are legal in the game at hand:
  any action that \<^verbatim>\<open>get_legal_actions\<close> builds in some game with these players, that is,
  Pass, a played card (a Favor with a target that is a seat) and a cat pair whose target
  is a seat.
\<close>

fun replayable :: "Game \<Rightarrow> Action \<Rightarrow> bool" where
  "replayable g Pass = True"
| "replayable g (PlayCard ct tgt stl) =
     (if ct = FAVOR then (case tgt of None \<Rightarrow> False | Some t \<Rightarrow> t < length (players (state g)))
      else True)"
| "replayable g (PlayCatPair cat t) = (t < length (players (state g)))"
| "replayable g PlayNope = True"
| "replayable g (InsertExplodingKitten pos) = False"

text \<open>The game after \<^verbatim>\<open>remove_card\<close> and \<^verbatim>\<open>discard.append\<close>, whether the card was held or
  not.\<close>

definition card_gone :: "CardType \<Rightarrow> Game \<Rightarrow> Game" where
  "card_gone ct g =
     (let i = current_player_idx (state g); h = hand (players (state g) ! i) in
      g\<lparr>state := (upd_player i (\<lambda>p. p\<lparr>hand := remove1 ct h\<rparr>) (state g))
                    \<lparr>discard := discard (state g) @ [if ct \<in> set h then Some ct else None]\<rparr>\<rparr>)"

text \<open>Two players; player 0 is to play, holds an Attack and a Defuse, and the top card of
  the deck is an exploding kitten.\<close>

definition ex_game :: Game where
  "ex_game =
     \<lparr>num_players = 2,
      state = \<lparr>players = [\<lparr>pid = 0, hand = [ATTACK, DEFUSE], alive = True\<rparr>,
                          \<lparr>pid = 1, hand = [SKIP, DEFUSE], alive = True\<rparr>],
               deck = [NOPE, EXPLODING_KITTEN], discard = [], current_player_idx = 0,
               turns_remaining = 1, game_over = False, winner = None,
               top_three_known_by = None\<rparr>,
      action_history = []\<rparr>"

text \<open>Three players, none of them holding a Defuse, the deck as above.\<close>

definition ex_three :: Game where
  "ex_three =
     \<lparr>num_players = 3,
      state = \<lparr>players = [\<lparr>pid = 0, hand = [ATTACK], alive = True\<rparr>,
                          \<lparr>pid = 1, hand = [ATTACK, NOPE], alive = True\<rparr>,
                          \<lparr>pid = 2, hand = [SKIP], alive = True\<rparr>],
               deck = [NOPE, EXPLODING_KITTEN], discard = [], current_player_idx = 0,
               turns_remaining = 1, game_over = False, winner = None,
               top_three_known_by = None\<rparr>,
      action_history = []\<rparr>"

text \<open>The game after player 0 of \<open>ex_three\<close> has played the Attack: player 1 is to play
  two turns.\<close>

definition ex_attacked :: Game where
  "ex_attacked =
     \<lparr>num_players = 3,
      state = \<lparr>players = [\<lparr>pid = 0, hand = [], alive = True\<rparr>,
                          \<lparr>pid = 1, hand = [ATTACK, NOPE], alive = True\<rparr>,
                          \<lparr>pid = 2, hand = [SKIP], alive = True\<rparr>],
               deck = [NOPE, EXPLODING_KITTEN], discard = [Some ATTACK],
               current_player_idx = 1, turns_remaining = 2, game_over = False,
               winner = None, top_three_known_by = None\<rparr>,
      action_history = [(0, PlayCard ATTACK None None)]\<rparr>"

text \<open>The game after player 1 has answered with an Attack before drawing.\<close>

definition ex_attacked_twice :: Game where
  "ex_attacked_twice =
     \<lparr>num_players = 3,
      state = \<lparr>players = [\<lparr>pid = 0, hand = [], alive = True\<rparr>,
                          \<lparr>pid = 1, hand = [NOPE], alive = True\<rparr>,
                          \<lparr>pid = 2, hand = [SKIP], alive = True\<rparr>],
               deck = [NOPE, EXPLODING_KITTEN], discard = [Some ATTACK, Some ATTACK],
               current_player_idx = 2, turns_remaining = 2, game_over = False,
               winner = None, top_three_known_by = None\<rparr>,
      action_history = [(0, PlayCard ATTACK None None), (1, PlayCard ATTACK None None)]\<rparr>"

text \<open>\<open>ex_game\<close> after player 0 has played a Skip that is not in the hand: the hand is as
  before, \<^verbatim>\<open>None\<close> lies on the discard pile and the turn has passed to player 1.\<close>

definition ex_skipped :: Game where
  "ex_skipped =
     \<lparr>num_players = 2,
      state = \<lparr>players = [\<lparr>pid = 0, hand = [ATTACK, DEFUSE], alive = True\<rparr>,
                          \<lparr>pid = 1, hand = [SKIP, DEFUSE], alive = True\<rparr>],
               deck = [NOPE, EXPLODING_KITTEN], discard = [None], current_player_idx = 1,
               turns_remaining = 1, game_over = False, winner = None,
               top_three_known_by = None\<rparr>,
      action_history = [(0, PlayCard SKIP None None)]\<rparr>"

text \<open>\<open>ex_game\<close> after \<^verbatim>\<open>InsertExplodingKitten(2)\<close>: a second exploding kitten is on the
  deck.\<close>

definition ex_inserted :: Game where
  "ex_inserted =
     \<lparr>num_players = 2,
      state = \<lparr>players = [\<lparr>pid = 0, hand = [ATTACK, DEFUSE], alive = True\<rparr>,
                          \<lparr>pid = 1, hand = [SKIP, DEFUSE], alive = True\<rparr>],
               deck = [NOPE, EXPLODING_KITTEN, EXPLODING_KITTEN], discard = [],
               current_player_idx = 0, turns_remaining = 1, game_over = False, winner = None,
               top_three_known_by = None\<rparr>,
      action_history = [(0, InsertExplodingKitten 2)]\<rparr>"

text \<open>Player 1 of three is to play its last turn, the deck is empty and player 2 is not
  alive: the turn passes to player 0.\<close>

definition ex_empty :: Game where
  "ex_empty =
     \<lparr>num_players = 3,
      state = \<lparr>players = [\<lparr>pid = 0, hand = [NOPE], alive = True\<rparr>,
                          \<lparr>pid = 1, hand = [SKIP], alive = True\<rparr>,
                          \<lparr>pid = 2, hand = [], alive = False\<rparr>],
               deck = [], discard = [Some EXPLODING_KITTEN], current_player_idx = 1,
               turns_remaining = 1, game_over = False, winner = None,
               top_three_known_by = None\<rparr>,
      action_history = []\<rparr>"

definition ex_empty_passed :: Game where
  "ex_empty_passed =
     \<lparr>num_players = 3,
      state = \<lparr>players = [\<lparr>pid = 0, hand = [NOPE], alive = True\<rparr>,
                          \<lparr>pid = 1, hand = [SKIP], alive = True\<rparr>,
                          \<lparr>pid = 2, hand = [], alive = False\<rparr>],
               deck = [], discard = [Some EXPLODING_KITTEN], current_player_idx = 0,
               turns_remaining = 1, game_over = False, winner = None,
               top_three_known_by = None\<rparr>,
      action_history = [(1, Pass)]\<rparr>"

text \<open>The game \<^verbatim>\<open>Game(2)\<close> when every draw of the random source is 0.\<close>

definition ex_start2 :: Game where
  "ex_start2 =
     \<lparr>num_players = 2, state = \<lparr>players = [\<lparr>pid = 0, hand = [ATTACK,
      CAT_RAINBOW_CAT, CAT_RAINBOW_CAT, CAT_RAINBOW_CAT, DEFUSE], alive = True\<rparr>,
      \<lparr>pid = 1, hand = [CAT_RAINBOW_CAT, CAT_BEARD_CAT, CAT_BEARD_CAT, CAT_BEARD_CAT,
      DEFUSE], alive = True\<rparr>], deck = [ATTACK, SKIP, SKIP, SKIP, SKIP, FAVOR, FAVOR,
      FAVOR, FAVOR, SHUFFLE, SHUFFLE, SHUFFLE, SHUFFLE, SEE_THE_FUTURE, SEE_THE_FUTURE,
      SEE_THE_FUTURE, SEE_THE_FUTURE, SEE_THE_FUTURE, NOPE, NOPE, NOPE, NOPE, NOPE,
      CAT_TACOCAT, CAT_TACOCAT, CAT_TACOCAT, CAT_TACOCAT, CAT_CATTERMELON, CAT_CATTERMELON,
      CAT_CATTERMELON, CAT_CATTERMELON, CAT_HAIRY_POTATO, CAT_HAIRY_POTATO,
      CAT_HAIRY_POTATO, CAT_HAIRY_POTATO, CAT_BEARD_CAT, DEFUSE, DEFUSE, ATTACK,
      EXPLODING_KITTEN, ATTACK], discard = [], current_player_idx = 0, turns_remaining = 1,
      game_over = False, winner = None, top_three_known_by = None\<rparr>, action_history =
      []\<rparr>"

text \<open>Player 0 has seen the top three cards (Attack, Nope, exploding kitten) and draws.\<close>

definition ex_known :: Game where
  "ex_known =
     \<lparr>num_players = 2,
      state = \<lparr>players = [\<lparr>pid = 0, hand = [DEFUSE], alive = True\<rparr>,
                          \<lparr>pid = 1, hand = [DEFUSE], alive = True\<rparr>],
               deck = [SKIP, ATTACK, NOPE, EXPLODING_KITTEN], discard = [],
               current_player_idx = 0, turns_remaining = 1, game_over = False, winner = None,
               top_three_known_by = Some 0\<rparr>,
      action_history = []\<rparr>"

text \<open>The kitten went back on top (position 3 of the three cards left).\<close>

definition ex_known_top :: Game where
  "ex_known_top =
     \<lparr>num_players = 2,
      state = \<lparr>players = [\<lparr>pid = 0, hand = [], alive = True\<rparr>,
                          \<lparr>pid = 1, hand = [DEFUSE], alive = True\<rparr>],
               deck = [SKIP, ATTACK, NOPE, EXPLODING_KITTEN], discard = [Some DEFUSE],
               current_player_idx = 1, turns_remaining = 1, game_over = False, winner = None,
               top_three_known_by = Some 0\<rparr>,
      action_history = [(0, Pass)]\<rparr>"

text \<open>The kitten went to the bottom (position 0).\<close>

definition ex_known_bottom :: Game where
  "ex_known_bottom =
     \<lparr>num_players = 2,
      state = \<lparr>players = [\<lparr>pid = 0, hand = [], alive = True\<rparr>,
                          \<lparr>pid = 1, hand = [DEFUSE], alive = True\<rparr>],
               deck = [EXPLODING_KITTEN, SKIP, ATTACK, NOPE], discard = [Some DEFUSE],
               current_player_idx = 1, turns_remaining = 1, game_over = False, winner = None,
               top_three_known_by = Some 0\<rparr>,
      action_history = [(0, Pass)]\<rparr>"

text \<open>No hand holds an exploding kitten.\<close>

definition clean_hands :: "Player list \<Rightarrow> bool" where
  "clean_hands ps \<longleftrightarrow> (\<forall>p \<in> set ps. EXPLODING_KITTEN \<notin> set (hand p))"

text \<open>The game \<^verbatim>\<open>Game(3)\<close> when every draw of the random source is 0.\<close>

definition ex_start3 :: Game where
  "ex_start3 =
     \<lparr>num_players = 3,
      state = \<lparr>players =
                 [\<lparr>pid = 0, hand = [ATTACK, CAT_RAINBOW_CAT, CAT_RAINBOW_CAT, CAT_RAINBOW_CAT, DEFUSE],
                   alive = True\<rparr>,
                  \<lparr>pid = 1, hand = [CAT_RAINBOW_CAT, CAT_BEARD_CAT, CAT_BEARD_CAT, CAT_BEARD_CAT, DEFUSE],
                   alive = True\<rparr>,
                  \<lparr>pid = 2, hand = [CAT_BEARD_CAT, CAT_HAIRY_POTATO, CAT_HAIRY_POTATO,
                                    CAT_HAIRY_POTATO, DEFUSE],
                   alive = True\<rparr>],
               deck =
                [ATTACK, SKIP, SKIP, SKIP, SKIP, FAVOR, FAVOR, FAVOR, FAVOR,
                 SHUFFLE, SHUFFLE, SHUFFLE, SHUFFLE, SEE_THE_FUTURE,
                 SEE_THE_FUTURE, SEE_THE_FUTURE, SEE_THE_FUTURE,
                 SEE_THE_FUTURE, NOPE, NOPE, NOPE, NOPE, NOPE, CAT_TACOCAT,
                 CAT_TACOCAT, CAT_TACOCAT, CAT_TACOCAT, CAT_CATTERMELON,
                 CAT_CATTERMELON, CAT_CATTERMELON, CAT_CATTERMELON,
                 CAT_HAIRY_POTATO, DEFUSE, DEFUSE, ATTACK, EXPLODING_KITTEN,
                 EXPLODING_KITTEN, ATTACK],
               discard = [], current_player_idx = 0, turns_remaining = 1,
               game_over = False, winner = None, top_three_known_by = None\<rparr>,
      action_history = []\<rparr>"

text \<open>A sequence of actions, each with the random source of its call, executed as long as
  each action is legal in the game it is applied to.\<close>

fun play_legal :: "(Action \<times> rng) list \<Rightarrow> Game \<Rightarrow> Game option" where
  "play_legal [] g = Some g"
| "play_legal ((a, r) # rest) g =
     (if is_legal g a then
        (case execute_action a g r of
           Some (Inr (g', r')) \<Rightarrow> play_legal rest g'
         | _ \<Rightarrow> None)
      else None)"

text \<open>\<open>ex_start3\<close> after all three players have passed: player 0 drew an Attack, players
  1 and 2 each drew a kitten, defused it and put it back on top.\<close>

definition ex_round :: Game where
  "ex_round =
     \<lparr>num_players = 3, state = \<lparr>players = [\<lparr>pid = 0, hand = [ATTACK,
      CAT_RAINBOW_CAT, CAT_RAINBOW_CAT, CAT_RAINBOW_CAT, DEFUSE, ATTACK], alive =
      True\<rparr>, \<lparr>pid = 1, hand = [CAT_RAINBOW_CAT, CAT_BEARD_CAT, CAT_BEARD_CAT,
      CAT_BEARD_CAT], alive = True\<rparr>, \<lparr>pid = 2, hand = [CAT_BEARD_CAT,
      CAT_HAIRY_POTATO, CAT_HAIRY_POTATO, CAT_HAIRY_POTATO], alive = True\<rparr>], deck =
      [ATTACK, SKIP, SKIP, SKIP, SKIP, FAVOR, FAVOR, FAVOR, FAVOR, SHUFFLE, SHUFFLE,
      SHUFFLE, SHUFFLE, SEE_THE_FUTURE, SEE_THE_FUTURE, SEE_THE_FUTURE, SEE_THE_FUTURE,
      SEE_THE_FUTURE, NOPE, NOPE, NOPE, NOPE, NOPE, CAT_TACOCAT, CAT_TACOCAT, CAT_TACOCAT,
      CAT_TACOCAT, CAT_CATTERMELON, CAT_CATTERMELON, CAT_CATTERMELON, CAT_CATTERMELON,
      CAT_HAIRY_POTATO, DEFUSE, DEFUSE, ATTACK, EXPLODING_KITTEN, EXPLODING_KITTEN], discard
      = [Some DEFUSE, Some DEFUSE], current_player_idx = 0, turns_remaining = 1, game_over =
      False, winner = None, top_three_known_by = None\<rparr>, action_history = [(0, Pass),
      (1, Pass), (2, Pass)]\<rparr>"

text \<open>Then player 0 attacked, player 1 drew a kitten without a Defuse on the first of its
  two turns, and stole a Defuse from player 0 with a cat pair: player 1 is not alive and
  is to play.\<close>

definition ex_dead_turn :: Game where
  "ex_dead_turn =
     \<lparr>num_players = 3, state = \<lparr>players = [\<lparr>pid = 0, hand =
      [CAT_RAINBOW_CAT, CAT_RAINBOW_CAT, CAT_RAINBOW_CAT, ATTACK], alive = True\<rparr>,
      \<lparr>pid = 1, hand = [CAT_RAINBOW_CAT, CAT_BEARD_CAT, DEFUSE], alive =
      False\<rparr>, \<lparr>pid = 2, hand = [CAT_BEARD_CAT, CAT_HAIRY_POTATO,
      CAT_HAIRY_POTATO, CAT_HAIRY_POTATO], alive = True\<rparr>], deck = [ATTACK, SKIP,
      SKIP, SKIP, SKIP, FAVOR, FAVOR, FAVOR, FAVOR, SHUFFLE, SHUFFLE, SHUFFLE, SHUFFLE,
      SEE_THE_FUTURE, SEE_THE_FUTURE, SEE_THE_FUTURE, SEE_THE_FUTURE, SEE_THE_FUTURE, NOPE,
      NOPE, NOPE, NOPE, NOPE, CAT_TACOCAT, CAT_TACOCAT, CAT_TACOCAT, CAT_TACOCAT,
      CAT_CATTERMELON, CAT_CATTERMELON, CAT_CATTERMELON, CAT_CATTERMELON, CAT_HAIRY_POTATO,
      DEFUSE, DEFUSE, ATTACK, EXPLODING_KITTEN], discard = [Some DEFUSE, Some DEFUSE, Some
      ATTACK, Some EXPLODING_KITTEN, Some CAT_BEARD_CAT, Some CAT_BEARD_CAT],
      current_player_idx = 1, turns_remaining = 1, game_over = False, winner = None,
      top_three_known_by = None\<rparr>, action_history = [(0, Pass), (1, Pass), (2, Pass),
      (0, PlayCard ATTACK None None), (1, Pass), (1, PlayCatPair CAT_BEARD_CAT 0)]\<rparr>"

text \<open>Then player 1 passed.\<close>

definition ex_dead_defused :: Game where
  "ex_dead_defused =
     \<lparr>num_players = 3, state = \<lparr>players = [\<lparr>pid = 0, hand =
      [CAT_RAINBOW_CAT, CAT_RAINBOW_CAT, CAT_RAINBOW_CAT, ATTACK], alive = True\<rparr>,
      \<lparr>pid = 1, hand = [CAT_RAINBOW_CAT, CAT_BEARD_CAT], alive = False\<rparr>,
      \<lparr>pid = 2, hand = [CAT_BEARD_CAT, CAT_HAIRY_POTATO, CAT_HAIRY_POTATO,
      CAT_HAIRY_POTATO], alive = True\<rparr>], deck = [EXPLODING_KITTEN, ATTACK, SKIP,
      SKIP, SKIP, SKIP, FAVOR, FAVOR, FAVOR, FAVOR, SHUFFLE, SHUFFLE, SHUFFLE, SHUFFLE,
      SEE_THE_FUTURE, SEE_THE_FUTURE, SEE_THE_FUTURE, SEE_THE_FUTURE, SEE_THE_FUTURE, NOPE,
      NOPE, NOPE, NOPE, NOPE, CAT_TACOCAT, CAT_TACOCAT, CAT_TACOCAT, CAT_TACOCAT,
      CAT_CATTERMELON, CAT_CATTERMELON, CAT_CATTERMELON, CAT_CATTERMELON, CAT_HAIRY_POTATO,
      DEFUSE, DEFUSE, ATTACK], discard = [Some DEFUSE, Some DEFUSE, Some ATTACK, Some
      EXPLODING_KITTEN, Some CAT_BEARD_CAT, Some CAT_BEARD_CAT, Some DEFUSE],
      current_player_idx = 2, turns_remaining = 1, game_over = False, winner = None,
      top_three_known_by = None\<rparr>, action_history = [(0, Pass), (1, Pass), (2, Pass),
      (0, PlayCard ATTACK None None), (1, Pass), (1, PlayCatPair CAT_BEARD_CAT 0), (1,
      Pass)]\<rparr>"

text \<open>The determinization of a game, when it returns.\<close>

definition determinized :: "Game \<Rightarrow> nat \<Rightarrow> rng \<Rightarrow> Game option" where
  "determinized g observer_id r =
     (case determinize_game g observer_id r of Inl e \<Rightarrow> None | Inr (d, r') \<Rightarrow> Some d)"

text \<open>The exploding kittens in circulation after a sequence of legal actions.\<close>

definition kittens_after :: "(Action \<times> rng) list \<Rightarrow> Game \<Rightarrow> nat option" where
  "kittens_after as g = map_option (\<lambda>g'. kittens_in_circulation (state g')) (play_legal as g)"

text \<open>\<open>ex_game\<close> after player 0 has passed, defused the kitten and put it at the bottom.\<close>

definition ex_defused :: Game where
  "ex_defused =
     \<lparr>num_players = 2,
      state = \<lparr>players = [\<lparr>pid = 0, hand = [ATTACK], alive = True\<rparr>,
                          \<lparr>pid = 1, hand = [SKIP, DEFUSE], alive = True\<rparr>],
               deck = [EXPLODING_KITTEN, NOPE], discard = [Some DEFUSE],
               current_player_idx = 1, turns_remaining = 1, game_over = False, winner = None,
               top_three_known_by = None\<rparr>,
      action_history = [(0, Pass)]\<rparr>"

text \<open>The game \<^verbatim>\<open>Game(0)\<close> when every draw of the random source is 0: it has no player.\<close>

definition ex_nobody :: Game where
  "ex_nobody =
     \<lparr>num_players = 0, state = \<lparr>players = [], deck = [ATTACK, SKIP, SKIP,
      SKIP, SKIP, FAVOR, FAVOR, FAVOR, FAVOR, SHUFFLE, SHUFFLE, SHUFFLE, SHUFFLE,
      SEE_THE_FUTURE, SEE_THE_FUTURE, SEE_THE_FUTURE, SEE_THE_FUTURE, SEE_THE_FUTURE, NOPE,
      NOPE, NOPE, NOPE, NOPE, CAT_TACOCAT, CAT_TACOCAT, CAT_TACOCAT, CAT_TACOCAT,
      CAT_CATTERMELON, CAT_CATTERMELON, CAT_CATTERMELON, CAT_CATTERMELON, CAT_HAIRY_POTATO,
      CAT_HAIRY_POTATO, CAT_HAIRY_POTATO, CAT_HAIRY_POTATO, CAT_BEARD_CAT, CAT_BEARD_CAT,
      CAT_BEARD_CAT, CAT_BEARD_CAT, CAT_RAINBOW_CAT, CAT_RAINBOW_CAT, CAT_RAINBOW_CAT,
      CAT_RAINBOW_CAT, ATTACK, DEFUSE, DEFUSE, ATTACK, ATTACK], discard = [],
      current_player_idx = 0, turns_remaining = 1, game_over = False, winner = None,
      top_three_known_by = None\<rparr>, action_history = []\<rparr>"

text \<open>The first loop of \<^verbatim>\<open>determinize_game\<close> on one player: the hand of an alive
  opponent goes to the pool.\<close>

definition strip_hand :: "nat \<Rightarrow> Player \<Rightarrow> Player" where
  "strip_hand observer_id p = (if hidden_from observer_id p then p\<lparr>hand := []\<rparr> else p)"

text \<open>\<open>p'\<close> is \<open>p\<close> after determinization: same id, same alive flag, as many cards, and
  the same player unless it is an alive opponent of the observer.\<close>

definition same_seat :: "nat \<Rightarrow> Player \<Rightarrow> Player \<Rightarrow> bool" where
  "same_seat observer_id p p' \<longleftrightarrow>
     pid p' = pid p \<and> alive p' = alive p \<and> length (hand p') = length (hand p)
       \<and> (hidden_from observer_id p \<or> p' = p)"

section \<open>Hands, shuffles\<close>

lemma remove_card_eq:
  "remove_card ct h = (if ct \<in> set h then Some ct else None, remove1 ct h)"
  by (induction h) auto

lemma has_card_iff: "has_card p ct \<longleftrightarrow> ct \<in> set (hand p)"
  by (simp add: has_card_def list_ex_iff)

lemma randbelow_less: "0 < n \<Longrightarrow> fst (randbelow n g) < n"
  by (cases g) auto

lemma randint0_le: "fst (randint0 b g) \<le> b"
  using randbelow_less [of "b + 1" g] by (simp add: randint0_def)

lemma shuffle_from_mset:
  "i < length xs \<Longrightarrow> mset (fst (shuffle_from i xs g)) = mset xs"
proof (induction i arbitrary: xs g)
  case 0
  then show ?case by simp
next
  case (Suc i)
  obtain j g' where jg: "randbelow (Suc (Suc i)) g = (j, g')" by (cases "randbelow (Suc (Suc i)) g")
  have "j < Suc (Suc i)" using randbelow_less [of "Suc (Suc i)" g] jg by simp
  with Suc.prems have jl: "j < length xs" by simp
  have "mset (xs[Suc i := xs ! j, j := xs ! Suc i]) = mset xs"
    using Suc.prems jl by (simp add: mset_swap)
  moreover have "i < length (xs[Suc i := xs ! j, j := xs ! Suc i])" using Suc.prems by simp
  ultimately show ?case using Suc.IH [of "xs[Suc i := xs ! j, j := xs ! Suc i]" g'] jg by simp
qed

lemma shuffle_mset: "mset (fst (shuffle xs g)) = mset xs"
proof (cases xs)
  case Nil
  then show ?thesis by (simp add: shuffle_def)
next
  case (Cons a list)
  then show ?thesis by (simp add: shuffle_def shuffle_from_mset)
qed

lemma shuffle_length: "length (fst (shuffle xs g)) = length xs"
  using shuffle_mset [of xs g] by (metis size_mset)

lemma shuffle_set: "set (fst (shuffle xs g)) = set xs"
  using shuffle_mset [of xs g] by (metis set_mset_mset)

lemma shuffle_count: "length (filter P (fst (shuffle xs g))) = length (filter P xs)"
  using shuffle_mset [of xs g] by (metis mset_filter size_mset)

section \<open>The search for the next alive player returns\<close>

lemma find_alive_steps:
  "idx < length ps \<Longrightarrow> alive (ps ! ((idx + d) mod length ps)) \<Longrightarrow>
   (\<forall>e<d. \<not> alive (ps ! ((idx + e) mod length ps))) \<Longrightarrow>
   find_alive ps (length ps) idx = Some (Inr ((idx + d) mod length ps))"
proof (induction d arbitrary: idx)
  case 0
  then show ?case by (subst find_alive.simps) simp
next
  case (Suc d)
  let ?n = "length ps"
  let ?i = "(idx + 1) mod ?n"
  have n0: "?n \<noteq> 0" using Suc.prems(1) by auto
  have dead: "\<not> alive (ps ! idx)" using Suc.prems(3) [rule_format, of 0] Suc.prems(1) by simp
  have i: "?i < ?n" using n0 by simp
  have eq: "\<And>x. (?i + x) mod ?n = (idx + Suc x) mod ?n"
    by (metis add.commute add_Suc_right mod_add_right_eq plus_1_eq_Suc add.assoc)
  have a: "alive (ps ! ((?i + d) mod ?n))" using Suc.prems(2) eq by simp
  have b: "\<forall>e<d. \<not> alive (ps ! ((?i + e) mod ?n))"
  proof (intro allI impI)
    fix e assume "e < d"
    then have "Suc e < Suc d" by simp
    then show "\<not> alive (ps ! ((?i + e) mod ?n))" using Suc.prems(3) eq by metis
  qed
  have "find_alive ps ?n idx = find_alive ps ?n ?i"
    using dead n0 Suc.prems(1) by (subst find_alive.simps) simp
  also have "\<dots> = Some (Inr ((?i + d) mod ?n))" using Suc.IH [OF i a b] .
  finally show ?case using eq by simp
qed

lemma find_alive_returns:
  assumes "idx < length ps" "j < length ps" "alive (ps ! j)"
  shows "\<exists>k. find_alive ps (length ps) idx = Some (Inr k) \<and> first_alive_from ps idx k"
proof -
  let ?n = "length ps"
  let ?P = "\<lambda>d. alive (ps ! ((idx + d) mod ?n))"
  have "(idx + (j + ?n - idx)) mod ?n = j" using assms by simp
  then have "?P (j + ?n - idx)" using assms by simp
  then obtain d where d: "?P d" "\<forall>e<d. \<not> ?P e"
    using exists_least_iff [of ?P] by blast
  have dn: "d < ?n"
  proof (rule ccontr)
    assume "\<not> d < ?n"
    then have "d - ?n < d" "(idx + (d - ?n)) mod ?n = (idx + d) mod ?n"
      using assms(1) by (auto simp: le_mod_geq)
    then show False using d by metis
  qed
  have "find_alive ps ?n idx = Some (Inr ((idx + d) mod ?n))"
    using find_alive_steps [OF assms(1) d] .
  moreover have "first_alive_from ps idx ((idx + d) mod ?n)"
    unfolding first_alive_from_def using d dn by blast
  ultimately show ?thesis by blast
qed

lemma first_alive_from_less: "first_alive_from ps start k \<Longrightarrow> k < length ps"
  unfolding first_alive_from_def
  by (metis mod_less_divisor length_greater_0_conv list.size(3) not_less_zero)

lemma first_alive_from_alive: "first_alive_from ps start k \<Longrightarrow> alive (ps ! k)"
  unfolding first_alive_from_def by blast

section \<open>Ending a turn\<close>

lemma set_turn_simps [simp]:
  "num_players (set_turn k t g) = num_players g"
  "action_history (set_turn k t g) = action_history g"
  "players (state (set_turn k t g)) = players (state g)"
  "deck (state (set_turn k t g)) = deck (state g)"
  "discard (state (set_turn k t g)) = discard (state g)"
  "current_player_idx (state (set_turn k t g)) = k"
  "turns_remaining (state (set_turn k t g)) = t"
  "game_over (state (set_turn k t g)) = game_over (state g)"
  "winner (state (set_turn k t g)) = winner (state g)"
  "top_three_known_by (state (set_turn k t g)) = top_three_known_by (state g)"
  by (simp_all add: set_turn_def)

lemma next_alive_returns:
  assumes "turn_ready g"
  shows "\<exists>k. next_alive g = Some (Inr k) \<and> first_alive_from (players (state g)) (next_start g) k"
proof -
  let ?ps = "players (state g)"
  from assms obtain j where j: "j < length ?ps" "alive (?ps ! j)"
    and n: "num_players g = length ?ps" and c: "current_player_idx (state g) < length ?ps"
    unfolding turn_ready_def by blast
  have ne: "?ps \<noteq> []" using c by (cases "players (state g)") auto
  then have s: "next_start g < length ?ps" unfolding next_start_def by simp
  from find_alive_returns [OF s j]
  show ?thesis using n ne by (simp add: next_alive_def next_start_def)
qed

lemma do_attack_returns:
  assumes "turn_ready g"
  shows "\<exists>k. do_attack g = Some (Inr (set_turn k 2 g))
             \<and> first_alive_from (players (state g)) (next_start g) k"
proof -
  from next_alive_returns [OF assms] obtain k where
    "next_alive g = Some (Inr k)" "first_alive_from (players (state g)) (next_start g) k" by blast
  then show ?thesis by (auto simp: do_attack_def set_turn_def)
qed

lemma end_turn_returns:
  assumes "turn_ready g"
  shows "\<exists>k t. end_turn g = Some (Inr (set_turn k t g)) \<and>
           (if turns_remaining (state g) - 1 \<le> 0
            then t = 1 \<and> first_alive_from (players (state g)) (next_start g) k
            else t = turns_remaining (state g) - 1 \<and> k = current_player_idx (state g))"
proof (cases "turns_remaining (state g) - 1 \<le> 0")
  case True
  let ?g1 = "g\<lparr>state := (state g)\<lparr>turns_remaining := turns_remaining (state g) - 1\<rparr>\<rparr>"
  have r: "turn_ready ?g1" using assms by (simp add: turn_ready_def)
  have ns: "next_start ?g1 = next_start g" by (simp add: next_start_def)
  from next_alive_returns [OF r] obtain k where
    k: "next_alive ?g1 = Some (Inr k)" "first_alive_from (players (state g)) (next_start g) k"
    using ns by auto
  have "end_turn g = Some (Inr (set_turn k 1 g))"
    using True k(1) by (simp add: end_turn_def advance_player_def set_turn_def Let_def)
  then show ?thesis using True k(2) by auto
next
  case False
  have "end_turn g = Some (Inr (set_turn (current_player_idx (state g)) (turns_remaining (state g) - 1) g))"
    using False by (simp add: end_turn_def set_turn_def Let_def)
  then show ?thesis using False by auto
qed

lemma total_cards_alt:
  "total_cards g = length (deck (state g)) + hand_total (players (state g)) + length (discard (state g))"
  by (simp add: total_cards_def hand_total_def)

lemma sum_list_update_add:
  fixes f :: "'a \<Rightarrow> nat"
  shows "i < length xs \<Longrightarrow> sum_list (map f (xs[i := y])) + f (xs ! i) = sum_list (map f xs) + f y"
proof (induction xs arbitrary: i)
  case Nil
  then show ?case by simp
next
  case (Cons x xs)
  then show ?case by (cases i) auto
qed

lemma hand_total_update:
  "i < length ps \<Longrightarrow>
   hand_total (ps[i := p']) + length (hand (ps ! i)) = hand_total ps + length (hand p')"
  unfolding hand_total_def by (rule sum_list_update_add)

lemma length_filter_sum:
  "length (filter P xs) = sum_list (map (\<lambda>x. if P x then 1 else 0) xs)"
  by (induction xs) auto

lemma alive_count_update:
  "i < length ps \<Longrightarrow>
   length (filter alive (ps[i := p'])) + (if alive (ps ! i) then 1 else 0)
     = length (filter alive ps) + (if alive p' then 1 else 0)"
  unfolding length_filter_sum by (rule sum_list_update_add)

lemma map_update_same:
  "f y = f (xs ! i) \<Longrightarrow> map f (xs[i := y]) = map f xs"
proof (cases "i < length xs")
  case True
  assume a: "f y = f (xs ! i)"
  have "map f (xs[i := y]) = (map f xs)[i := (map f xs) ! i]"
    using True a by (simp add: map_update)
  then show ?thesis by (simp only: list_update_id)
next
  case False
  then show ?thesis by (simp add: list_update_beyond not_less)
qed

lemma alive_count_map:
  "map alive ps' = map alive ps \<Longrightarrow> length (filter alive ps') = length (filter alive ps)"
proof -
  assume a: "map alive ps' = map alive ps"
  have "\<And>qs. length (filter alive qs) = count_list (map alive qs) True"
    subgoal for qs by (induction qs) auto
    done
  then have "length (filter alive ps') = count_list (map alive ps') True"
    and "length (filter alive ps) = count_list (map alive ps) True" by blast+
  then show ?thesis by (simp only: a)
qed

lemma alive_exists:
  "0 < length (filter alive ps) \<Longrightarrow> \<exists>j<length ps. alive (ps ! j)"
proof -
  assume "0 < length (filter alive ps)"
  then obtain p where "p \<in> set (filter alive ps)"
    by (cases "filter alive ps") auto
  then have "p \<in> set ps" "alive p" by simp_all
  then show ?thesis by (metis in_set_conv_nth)
qed

lemma upd_player_simps [simp]:
  "players (upd_player i f s) = (players s)[i := f (players s ! i)]"
  "deck (upd_player i f s) = deck s"
  "discard (upd_player i f s) = discard s"
  "current_player_idx (upd_player i f s) = current_player_idx s"
  "turns_remaining (upd_player i f s) = turns_remaining s"
  "game_over (upd_player i f s) = game_over s"
  "winner (upd_player i f s) = winner s"
  "top_three_known_by (upd_player i f s) = top_three_known_by s"
  by (simp_all add: upd_player_def)

lemma with_rng_simps [simp]:
  "with_rng r None = None"
  "with_rng r (Some (Inl e)) = Some (Inl e)"
  "with_rng r (Some (Inr g)) = Some (Inr (g, r))"
  by (simp_all add: with_rng_def)

text \<open>The transfer of a card between two hands.\<close>

lemma steal_effect:
  assumes "steal i t s r = Inr (s', r')" "i < length (players s)"
  shows "\<exists>ps'. s' = s\<lparr>players := ps'\<rparr> \<and> length ps' = length (players s)
           \<and> map pid ps' = map pid (players s)
           \<and> map alive ps' = map alive (players s) \<and> hand_total ps' = hand_total (players s)"
proof (cases "hand (players s ! t) = []")
  case True
  then have "s' = s" using assms by (auto simp: steal_def split: if_splits)
  then show ?thesis by (intro exI [of _ "players s"]) simp
next
  case False
  let ?ps = "players s"
  from assms False have t: "t < length ?ps" by (auto simp: steal_def split: if_splits)
  obtain k r1 where k: "randint0 (length (hand (?ps ! t)) - 1) r = (k, r1)"
    by (cases "randint0 (length (hand (?ps ! t)) - 1) r")
  have kl: "k < length (hand (?ps ! t))"
    using randint0_le [of "length (hand (?ps ! t)) - 1" r] k False
    by (cases "hand (?ps ! t)") auto
  let ?h = "hand (?ps ! t)"
  let ?p1 = "(?ps ! t)\<lparr>hand := take k ?h @ drop (Suc k) ?h\<rparr>"
  let ?ps1 = "?ps[t := ?p1]"
  let ?p2 = "(?ps1 ! i)\<lparr>hand := hand (?ps1 ! i) @ [?h ! k]\<rparr>"
  let ?ps2 = "?ps1[i := ?p2]"
  have s': "s' = s\<lparr>players := ?ps2\<rparr>"
    using assms(1) False t k by (simp add: steal_def upd_player_def Let_def)
  have l1: "length (hand ?p1) + 1 = length ?h" using kl by simp
  have h1: "hand_total ?ps1 + length ?h = hand_total ?ps + length (hand ?p1)"
    using hand_total_update [OF t] .
  have i1: "i < length ?ps1" using assms(2) by simp
  have h2: "hand_total ?ps2 + length (hand (?ps1 ! i)) = hand_total ?ps1 + length (hand ?p2)"
    using hand_total_update [OF i1] .
  have "hand_total ?ps2 = hand_total ?ps" using l1 h1 h2 by simp
  moreover have "map pid ?ps2 = map pid ?ps" by (simp add: map_update_same)
  moreover have "map alive ?ps2 = map alive ?ps" by (simp add: map_update_same)
  ultimately show ?thesis using s' by auto
qed

lemma steal_returns:
  "t < length (players s) \<Longrightarrow> \<exists>s' r'. steal i t s r = Inr (s', r')"
  by (cases "randint0 (length (hand (players s ! t)) - 1) r") (simp add: steal_def Let_def)

text \<open>Logging the action and checking the win condition.\<close>

lemma finish_frame [simp]:
  "num_players (finish p a g) = num_players g"
  "players (state (finish p a g)) = players (state g)"
  "deck (state (finish p a g)) = deck (state g)"
  "discard (state (finish p a g)) = discard (state g)"
  "current_player_idx (state (finish p a g)) = current_player_idx (state g)"
  "turns_remaining (state (finish p a g)) = turns_remaining (state g)"
  "top_three_known_by (state (finish p a g)) = top_three_known_by (state g)"
  by (simp_all add: finish_def check_game_over_def split: list.splits)

lemma finish_winner:
  "winner (state g) = None \<or> game_over (state g) \<Longrightarrow>
   winner (state (finish p a g)) = None \<or> game_over (state (finish p a g))"
  by (auto simp: finish_def check_game_over_def split: list.splits)

lemma finish_total [simp]: "total_cards (finish p a g) = total_cards g"
  by (simp add: total_cards_def)

lemma finish_inv: "game_inv g \<Longrightarrow> game_inv (finish p a g)"
  using finish_winner [of g p a]
  by (simp add: game_inv_def alive_players_def kittens_in_deck_def)

lemma set_turn_total [simp]: "total_cards (set_turn k t g) = total_cards g"
  by (simp add: total_cards_def)

lemma set_turn_inv:
  "game_inv g \<Longrightarrow> k < length (players (state g)) \<Longrightarrow> game_inv (set_turn k t g)"
  by (simp add: game_inv_def alive_players_def kittens_in_deck_def)

lemma inv_turn_ready: "game_inv g \<Longrightarrow> turn_ready g"
proof -
  assume a: "game_inv g"
  then have "0 < length (filter alive (players (state g)))"
    unfolding game_inv_def alive_players_def by linarith
  from alive_exists [OF this] a show ?thesis by (simp add: turn_ready_def game_inv_def)
qed

lemma insert_card_length [simp]: "length (insert_card c pos d) = Suc (length d)"
proof -
  have "length (take pos d) + length (drop pos d) = length d"
    by (metis append_take_drop_id length_append)
  then show ?thesis unfolding insert_card_def by (simp del: length_take length_drop)
qed

lemma insert_card_count:
  "length (filter P (insert_card c pos d)) = length (filter P d) + (if P c then 1 else 0)"
proof -
  have "length (filter P (take pos d)) + length (filter P (drop pos d)) = length (filter P d)"
    by (metis append_take_drop_id filter_append length_append)
  then show ?thesis unfolding insert_card_def by simp
qed

lemma do_draw_factor:
  "do_draw g r =
     (if length (players (state g)) \<le> current_player_idx (state g) then Some (Inl IndexError)
      else (case draw_resolve g r of (g1, r1) \<Rightarrow> with_rng r1 (end_turn g1)))"
  by (simp add: do_draw_def draw_resolve_def Let_def split: prod.splits)

lemma draw_resolve_total:
  assumes "current_player_idx (state g) < length (players (state g))"
  shows "total_cards (fst (draw_resolve g r)) = total_cards g"
proof -
  let ?s = "state g"
  let ?i = "current_player_idx ?s"
  let ?ps = "players ?s"
  let ?h = "hand (?ps ! ?i)"
  note upd = hand_total_update [OF assms]
  show ?thesis
  proof (cases "deck ?s = []")
    case True
    then show ?thesis by (simp add: draw_resolve_def)
  next
    case ne: False
    then have dl: "length (butlast (deck ?s)) + 1 = length (deck ?s)" by (cases "deck ?s") auto
    show ?thesis
    proof (cases "last (deck ?s) = EXPLODING_KITTEN")
      case False
      have "hand_total (?ps[?i := (?ps ! ?i)\<lparr>hand := ?h @ [last (deck ?s)]\<rparr>]) = hand_total ?ps + 1"
        using upd [of "(?ps ! ?i)\<lparr>hand := ?h @ [last (deck ?s)]\<rparr>"] by simp
      then show ?thesis using ne False dl
        by (simp add: draw_resolve_def Let_def total_cards_alt)
    next
      case ek: True
      show ?thesis
      proof (cases "DEFUSE \<in> set ?h")
        case True
        obtain pos r1 where pos: "randint0 (length (butlast (deck ?s))) r = (pos, r1)"
          by (cases "randint0 (length (butlast (deck ?s))) r")
        have "0 < length ?h" using True by (cases ?h) auto
        then have "length (remove1 DEFUSE ?h) + 1 = length ?h"
          using True by (simp add: length_remove1)
        then have "hand_total (?ps[?i := (?ps ! ?i)\<lparr>hand := remove1 DEFUSE ?h\<rparr>]) + 1 = hand_total ?ps"
          using upd [of "(?ps ! ?i)\<lparr>hand := remove1 DEFUSE ?h\<rparr>"] by simp
        then show ?thesis using ne ek True dl pos
          by (simp add: draw_resolve_def Let_def total_cards_alt has_card_iff remove_card_eq)
      next
        case False
        have "hand_total (?ps[?i := (?ps ! ?i)\<lparr>alive := False\<rparr>]) = hand_total ?ps"
          using upd [of "(?ps ! ?i)\<lparr>alive := False\<rparr>"] by simp
        then show ?thesis using ne ek False dl
          by (simp add: draw_resolve_def Let_def total_cards_alt has_card_iff)
      qed
    qed
  qed
qed

lemma end_turn_form:
  "end_turn g = Some (Inr g') \<Longrightarrow>
   g' = set_turn (current_player_idx (state g')) (turns_remaining (state g')) g"
  by (auto simp: end_turn_def advance_player_def set_turn_def Let_def
      split: if_splits option.splits sum.splits)

lemma do_attack_form:
  "do_attack g = Some (Inr g') \<Longrightarrow> g' = set_turn (current_player_idx (state g')) 2 g"
  by (auto simp: do_attack_def set_turn_def split: option.splits sum.splits)

lemma with_rng_Inr:
  "with_rng r out = Some (Inr (g', r')) \<longleftrightarrow> out = Some (Inr g') \<and> r' = r"
  by (cases out) (auto simp: with_rng_def map_sum_def split: sum.splits)

lemma do_draw_total:
  assumes "do_draw g r = Some (Inr (g', r'))"
  shows "total_cards g' = total_cards g"
proof -
  from assms have c: "current_player_idx (state g) < length (players (state g))"
    by (auto simp: do_draw_factor split: if_splits)
  obtain g1 r1 where g1: "draw_resolve g r = (g1, r1)" by (cases "draw_resolve g r")
  with assms c have "end_turn g1 = Some (Inr g')"
    by (simp add: do_draw_factor with_rng_Inr)
  then obtain k t where "g' = set_turn k t g1" using end_turn_form by blast
  moreover have "total_cards g1 = total_cards g" using draw_resolve_total [OF c, of r] g1 by simp
  ultimately show ?thesis by simp
qed

lemma cat_pair_count:
  "cat \<in> set (get_matching_cat_pairs p) \<Longrightarrow> 2 \<le> length (filter (\<lambda>c. c = cat) (hand p))"
proof -
  assume "cat \<in> set (get_matching_cat_pairs p)"
  then have "2 \<le> length (filter (\<lambda>c. c = cat) (filter (\<lambda>c. c \<in> set CAT_CARDS) (hand p)))"
    by (simp add: get_matching_cat_pairs_def Let_def)
  also have "\<dots> \<le> length (filter (\<lambda>c. c = cat) (hand p))"
  proof -
    have "filter (\<lambda>c. c = cat) (filter (\<lambda>c. c \<in> set CAT_CARDS) (hand p))
        = filter (\<lambda>c. c \<in> set CAT_CARDS) (filter (\<lambda>c. c = cat) (hand p))"
      by (simp add: conj_commute)
    then show ?thesis by (simp only: length_filter_le)
  qed
  finally show ?thesis .
qed

lemma is_legal_idx:
  "is_legal g a \<Longrightarrow> current_player_idx (state g) < length (players (state g))"
  by (simp add: is_legal_def get_legal_actions_def Let_def split: if_splits)

lemma is_legal_cases:
  assumes "is_legal g a"
  shows "a = Pass
     \<or> (\<exists>ct. a = PlayCard ct None None
             \<and> ct \<in> set (hand (players (state g) ! current_player_idx (state g)))
             \<and> ct \<in> {ATTACK, SKIP, SHUFFLE, SEE_THE_FUTURE})
     \<or> (\<exists>other. a = PlayCard FAVOR (Some (pid other)) None
             \<and> FAVOR \<in> set (hand (players (state g) ! current_player_idx (state g)))
             \<and> other \<in> set (players (state g))
             \<and> eligible (current_player_idx (state g)) other)
     \<or> (\<exists>cat other. a = PlayCatPair cat (pid other)
             \<and> 2 \<le> length (filter (\<lambda>c. c = cat) (hand (players (state g) ! current_player_idx (state g))))
             \<and> other \<in> set (players (state g))
             \<and> eligible (current_player_idx (state g)) other)"
proof -
  let ?i = "current_player_idx (state g)"
  let ?p = "players (state g) ! ?i"
  let ?el = "filter (eligible ?i) (players (state g))"
  let ?A = "map (\<lambda>ct. PlayCard ct None None)
                 (filter (has_card ?p) [ATTACK, SKIP, SHUFFLE, SEE_THE_FUTURE])"
  let ?B = "if has_card ?p FAVOR
            then map (\<lambda>other. PlayCard FAVOR (Some (pid other)) None) ?el else []"
  let ?C = "concat (map (\<lambda>cat_type. map (\<lambda>other. PlayCatPair cat_type (pid other)) ?el)
                         (get_matching_cat_pairs ?p))"
  from assms have i: "?i < length (players (state g))" by (rule is_legal_idx)
  then have "get_legal_actions g = Inr ([Pass] @ ?A @ ?B @ ?C)"
    by (simp add: get_legal_actions_def Let_def)
  with assms have "a \<in> set ([Pass] @ ?A @ ?B @ ?C)" by (simp add: is_legal_def)
  then consider (pass) "a = Pass" | (A) "a \<in> set ?A" | (B) "a \<in> set ?B" | (C) "a \<in> set ?C"
    by auto
  then show ?thesis
  proof cases
    case pass
    then show ?thesis by simp
  next
    case A
    then have "a \<in> (\<lambda>ct. PlayCard ct None None) `
                 {ct \<in> set [ATTACK, SKIP, SHUFFLE, SEE_THE_FUTURE]. has_card ?p ct}"
      by (simp only: set_map set_filter)
    then obtain ct where "a = PlayCard ct None None" "has_card ?p ct"
      "ct \<in> {ATTACK, SKIP, SHUFFLE, SEE_THE_FUTURE}" by auto
    then show ?thesis by (auto simp: has_card_iff)
  next
    case B
    then have f: "has_card ?p FAVOR" by (auto split: if_splits)
    with B obtain other where "a = PlayCard FAVOR (Some (pid other)) None" "other \<in> set ?el"
      by auto
    then show ?thesis using f by (auto simp: has_card_iff)
  next
    case C
    then obtain cat other where "cat \<in> set (get_matching_cat_pairs ?p)"
      "a = PlayCatPair cat (pid other)" "other \<in> set ?el" by auto
    then show ?thesis using cat_pair_count [of cat ?p] by auto
  qed
qed

lemma remove1_length_in: "x \<in> set h \<Longrightarrow> length (remove1 x h) + 1 = length h"
proof -
  assume a: "x \<in> set h"
  then have "0 < length h" by (cases h) auto
  then show ?thesis using a by (simp add: length_remove1)
qed

lemma two_of_kind:
  "2 \<le> length (filter (\<lambda>c. c = x) h) \<Longrightarrow> x \<in> set h \<and> x \<in> set (remove1 x h)"
proof (induction h)
  case Nil
  then show ?case by simp
next
  case (Cons a h)
  show ?case
  proof (cases "a = x")
    case True
    with Cons.prems have "1 \<le> length (filter (\<lambda>c. c = x) h)" by simp
    then have "filter (\<lambda>c. c = x) h \<noteq> []" by (cases "filter (\<lambda>c. c = x) h") auto
    then have "x \<in> set h" by (metis (mono_tags, lifting) filter_False)
    then show ?thesis using True by simp
  next
    case False
    then show ?thesis using Cons by auto
  qed
qed

lemma shuffle_deck_total:
  "shuffle_deck s r = (s', r') \<Longrightarrow>
   length (deck s') = length (deck s) \<and> players s' = players s \<and> discard s' = discard s"
  using shuffle_length [of "deck s" r]
  by (auto simp: shuffle_deck_def split: prod.splits)

lemma play_effect_total:
  assumes "i < length (players (state g))" "play_effect i ct tgt g r = Some (Inr (g', r'))"
  shows "total_cards g' = total_cards g"
proof -
  consider (attack) "ct = ATTACK" | (skip) "ct = SKIP" | (shuffle) "ct = SHUFFLE"
    | (future) "ct = SEE_THE_FUTURE" | (favor) "ct = FAVOR"
    | (other) "ct \<notin> {ATTACK, SKIP, SHUFFLE, SEE_THE_FUTURE, FAVOR}" by blast
  then show ?thesis
  proof cases
    case attack
    with assms(2) have "do_attack g = Some (Inr g')" by (simp add: play_effect_def with_rng_Inr)
    from do_attack_form [OF this] obtain k where "g' = set_turn k 2 g" by blast
    then show ?thesis by simp
  next
    case skip
    with assms(2) have "end_turn g = Some (Inr g')"
      by (simp add: play_effect_def with_rng_Inr do_skip_def)
    from end_turn_form [OF this] obtain k t where "g' = set_turn k t g" by blast
    then show ?thesis by simp
  next
    case shuffle
    obtain s1 r1 where s1: "shuffle_deck (state g) r = (s1, r1)" by (cases "shuffle_deck (state g) r")
    with assms(2) shuffle have "g' = g\<lparr>state := s1\<rparr>" by (simp add: play_effect_def)
    then show ?thesis using shuffle_deck_total [OF s1] by (simp add: total_cards_def)
  next
    case future
    with assms(2) show ?thesis by (auto simp: play_effect_def total_cards_def)
  next
    case favor
    with assms(2) obtain t where t: "tgt = Some t" "steal_game i t g r = Some (Inr (g', r'))"
      by (cases tgt) (auto simp: play_effect_def)
    then obtain s' where s': "steal i t (state g) r = Inr (s', r')" "g' = g\<lparr>state := s'\<rparr>"
      by (auto simp: steal_game_def split: sum.splits)
    from steal_effect [OF s'(1) assms(1)] s'(2) show ?thesis
      by (auto simp: total_cards_alt)
  next
    case other
    with assms(2) show ?thesis by (simp add: play_effect_def)
  qed
qed

lemma apply_action_total:
  assumes "is_legal g a" "apply_action (current_player_idx (state g)) a g r = Some (Inr (g', r'))"
  shows "total_cards g' = total_cards g"
proof -
  let ?i = "current_player_idx (state g)"
  let ?ps = "players (state g)"
  let ?h = "hand (?ps ! ?i)"
  from is_legal_idx [OF assms(1)] have i: "?i < length ?ps" .
  note upd = hand_total_update [OF i]
  have played: "total_cards g' = total_cards g"
    if a: "a = PlayCard ct tgt stl" and ct: "ct \<in> set ?h" for ct tgt stl
  proof -
    let ?g1 = "g\<lparr>state := (upd_player ?i (\<lambda>p. p\<lparr>hand := remove1 ct ?h\<rparr>) (state g))
                 \<lparr>discard := discard (state g) @ [Some ct]\<rparr>\<rparr>"
    have e: "play_effect ?i ct tgt ?g1 r = Some (Inr (g', r'))"
      using assms(2) a ct by (simp add: remove_card_eq Let_def)
    have "hand_total (?ps[?i := (?ps ! ?i)\<lparr>hand := remove1 ct ?h\<rparr>]) + 1 = hand_total ?ps"
      using upd [of "(?ps ! ?i)\<lparr>hand := remove1 ct ?h\<rparr>"] remove1_length_in [OF ct] by simp
    then have "total_cards ?g1 = total_cards g" by (simp add: total_cards_alt)
    moreover have "total_cards g' = total_cards ?g1"
      using play_effect_total [OF _ e] i by simp
    ultimately show ?thesis by simp
  qed
  from is_legal_cases [OF assms(1)]
  consider (pass) "a = Pass"
    | (card) ct tgt where "a = PlayCard ct tgt None" "ct \<in> set ?h"
    | (pair) cat t where "a = PlayCatPair cat t" "2 \<le> length (filter (\<lambda>c. c = cat) ?h)"
    by blast
  then show ?thesis
  proof cases
    case pass
    with assms(2) show ?thesis using do_draw_total by simp
  next
    case card
    then show ?thesis using played by blast
  next
    case pair
    from two_of_kind [OF pair(2)] have in1: "cat \<in> set ?h" and in2: "cat \<in> set (remove1 cat ?h)"
      by blast+
    let ?h2 = "remove1 cat (remove1 cat ?h)"
    let ?s3 = "(state g)\<lparr>players := ?ps[?i := (?ps ! ?i)\<lparr>hand := ?h2\<rparr>],
                         discard := discard (state g) @ [Some cat, Some cat]\<rparr>"
    have e: "steal_game ?i t (g\<lparr>state := ?s3\<rparr>) r = Some (Inr (g', r'))"
      using assms(2) pair(1) i by (simp add: remove_card_eq Let_def upd_player_def)
    then obtain s' where s': "steal ?i t ?s3 r = Inr (s', r')" "g' = g\<lparr>state := s'\<rparr>"
      by (auto simp: steal_game_def split: sum.splits)
    have i3: "?i < length (players ?s3)" using i by simp
    have "length ?h2 + 2 = length ?h"
      using remove1_length_in [OF in1] remove1_length_in [OF in2] by simp
    then have "hand_total (players ?s3) + 2 = hand_total ?ps"
      using upd [of "(?ps ! ?i)\<lparr>hand := ?h2\<rparr>"] by simp
    moreover from steal_effect [OF s'(1) i3] obtain ps' where
      "s' = ?s3\<lparr>players := ps'\<rparr>" "hand_total ps' = hand_total (players ?s3)" by blast
    ultimately show ?thesis using s'(2) by (simp add: total_cards_alt)
  qed
qed

lemma execute_action_total:
  assumes "is_legal g a" "execute_action a g r = Some (Inr (g', r'))"
  shows "total_cards g' = total_cards g"
proof -
  from assms(2) obtain g1 where
    "apply_action (current_player_idx (state g)) a g r = Some (Inr (g1, r'))"
    "g' = finish (pid (players (state g) ! current_player_idx (state g))) a g1"
    by (auto simp: execute_action_def Let_def split: if_splits option.splits sum.splits)
  then show ?thesis using apply_action_total [OF assms(1)] by simp
qed

lemma draw_n_returns:
  "k \<le> length d \<Longrightarrow>
   \<exists>cs d'. draw_n k h d = Inr (h @ cs, d') \<and> length cs = k \<and> mset cs + mset d' = mset d"
proof (induction k arbitrary: h d)
  case 0
  then show ?case by simp
next
  case (Suc k)
  then have ne: "d \<noteq> []" by auto
  then have split: "mset d = mset (butlast d) + {#last d#}"
    by (metis append_butlast_last_id mset.simps(1) mset.simps(2) mset_append add_mset_add_single
        add.right_neutral union_mset_add_mset_right)
  have "k \<le> length (butlast d)" using Suc.prems by simp
  from Suc.IH [OF this, of "h @ [last d]"] obtain cs d' where
    c: "draw_n k (h @ [last d]) (butlast d) = Inr ((h @ [last d]) @ cs, d')"
       "length cs = k" "mset cs + mset d' = mset (butlast d)" by blast
  have "draw_n (Suc k) h d = Inr (h @ (last d # cs), d')" using ne c(1) by simp
  moreover have "length (last d # cs) = Suc k" using c(2) by simp
  moreover have "mset (last d # cs) + mset d' = mset d" using c(3) split by simp
  ultimately show ?case by blast
qed

lemma draw_n_fails: "length d < k \<Longrightarrow> draw_n k h d = Inl IndexError"
proof (induction k arbitrary: h d)
  case 0
  then show ?case by simp
next
  case (Suc k)
  show ?case
  proof (cases "d = []")
    case True
    then show ?thesis by simp
  next
    case False
    then have "length (butlast d) < k" using Suc.prems by (cases d) auto
    from Suc.IH [OF this] False show ?thesis by simp
  qed
qed

lemma deal_hands_returns:
  "4 * length ps \<le> length d \<Longrightarrow>
   \<exists>ps' d'. deal_hands ps d = Inr (ps', d') \<and> list_all2 (dealt d) ps ps'
            \<and> length d' + 4 * length ps = length d \<and> set d' \<subseteq> set d"
proof (induction ps arbitrary: d)
  case Nil
  then show ?case by simp
next
  case (Cons p ps)
  then have "4 \<le> length d" by simp
  from draw_n_returns [OF this, of "hand p"] obtain cs d1 where
    c: "draw_n 4 (hand p) d = Inr (hand p @ cs, d1)" "length cs = 4" "mset cs + mset d1 = mset d"
    by blast
  have sub: "set cs \<subseteq> set d" "set d1 \<subseteq> set d"
    using c(3) by (metis set_mset_mset mset_subset_eq_add_left mset_subset_eq_add_right
        set_mset_mono)+
  have "length cs + length d1 = length d" using c(3) by (metis size_mset size_union)
  then have l1: "length d1 + 4 = length d" using c(2) by simp
  then have "4 * length ps \<le> length d1" using Cons.prems by simp
  from Cons.IH [OF this] obtain ps' d' where
    r: "deal_hands ps d1 = Inr (ps', d')" "list_all2 (dealt d1) ps ps'"
       "length d' + 4 * length ps = length d1" "set d' \<subseteq> set d1" by blast
  have "\<And>x y. dealt d1 x y \<Longrightarrow> dealt d x y"
    using sub(2) unfolding dealt_def by blast
  then have mono: "list_all2 (dealt d) ps ps'"
    using r(2) list_all2_mono by blast
  have "deal_hands (p # ps) d = Inr (p\<lparr>hand := (hand p @ cs) @ [DEFUSE]\<rparr> # ps', d')"
    using c(1) r(1) by simp
  moreover have "dealt d p (p\<lparr>hand := (hand p @ cs) @ [DEFUSE]\<rparr>)"
    using c(2) sub(1) by (simp add: dealt_def)
  ultimately show ?case using mono r(3,4) l1 sub(2) by auto
qed

lemma deal_hands_fails:
  "length d < 4 * length ps \<Longrightarrow> deal_hands ps d = Inl IndexError"
proof (induction ps arbitrary: d)
  case Nil
  then show ?case by simp
next
  case (Cons p ps)
  show ?case
  proof (cases "length d < 4")
    case True
    then show ?thesis by (simp add: draw_n_fails)
  next
    case False
    then have "4 \<le> length d" by simp
    from draw_n_returns [OF this, of "hand p"] obtain cs d1 where
      c: "draw_n 4 (hand p) d = Inr (hand p @ cs, d1)" "length cs = 4" "mset cs + mset d1 = mset d"
      by blast
    have "length cs + length d1 = length d" using c(3) by (metis size_mset size_union)
    then have "length d1 < 4 * length ps" using Cons.prems c(2) by simp
    from Cons.IH [OF this] c(1) show ?thesis by simp
  qed
qed

lemma base_deck_length: "length base_deck = 46"
  by (simp add: base_deck_def BASE_DECK_CONFIG_def)

lemma base_deck_set:
  "EXPLODING_KITTEN \<notin> set base_deck" "DEFUSE \<notin> set base_deck"
  by (simp_all add: base_deck_def BASE_DECK_CONFIG_def)

lemma dealt_maps:
  "list_all2 (dealt d) ps ps' \<Longrightarrow>
   map pid ps' = map pid ps \<and> map alive ps' = map alive ps
     \<and> hand_total ps' = hand_total ps + 5 * length ps"
  by (induction rule: list_all2_induct) (auto simp: dealt_def hand_total_def)

lemma dealt_set: "set d = set d' \<Longrightarrow> dealt d p p' \<Longrightarrow> dealt d' p p'"
  by (simp add: dealt_def)

lemma fresh_players_simps:
  "length (fresh_players n) = n" "map pid (fresh_players n) = [0..<n]"
  "map alive (fresh_players n) = replicate n True" "hand_total (fresh_players n) = 0"
  by (simp_all add: fresh_players_def hand_total_def comp_def map_replicate_const)

lemma setup_game_returns:
  assumes "n \<le> 11"
  shows "\<exists>ps d r'. setup_game n r =
            Inr (\<lparr>players = ps, deck = d, discard = [], current_player_idx = 0,
                  turns_remaining = 1, game_over = False, winner = None,
                  top_three_known_by = None\<rparr>, r')
          \<and> list_all2 (dealt base_deck) (fresh_players n) ps
          \<and> length d + 4 * n = 48 + (n - 1)
          \<and> length (filter (\<lambda>c. c = EXPLODING_KITTEN) d) = n - 1"
proof -
  obtain d1 r1 where d1: "shuffle base_deck r = (d1, r1)" by (cases "shuffle base_deck r")
  have d1l: "length d1 = 46" and d1s: "set d1 = set base_deck"
    using shuffle_length [of base_deck r] shuffle_set [of base_deck r] d1
    by (simp_all add: base_deck_length)
  have "4 * length (fresh_players n) \<le> length d1"
    using assms d1l by (simp add: fresh_players_simps)
  from deal_hands_returns [OF this] obtain ps d2 where
    deal: "deal_hands (fresh_players n) d1 = Inr (ps, d2)"
      "list_all2 (dealt d1) (fresh_players n) ps"
      "length d2 + 4 * length (fresh_players n) = length d1" "set d2 \<subseteq> set d1" by blast
  have d2k: "EXPLODING_KITTEN \<notin> set d2" using deal(4) d1s base_deck_set(1) by blast
  obtain d3 r2 where d3: "shuffle (d2 @ replicate DEFUSE_IN_DECK DEFUSE) r1 = (d3, r2)"
    by (cases "shuffle (d2 @ replicate DEFUSE_IN_DECK DEFUSE) r1")
  have d3l: "length d3 = length d2 + 2"
    using shuffle_length [of "d2 @ replicate DEFUSE_IN_DECK DEFUSE" r1] d3
    by (simp add: DEFUSE_IN_DECK_def)
  have d3k: "EXPLODING_KITTEN \<notin> set d3"
    using shuffle_set [of "d2 @ replicate DEFUSE_IN_DECK DEFUSE" r1] d3 d2k by auto
  obtain d4 r3 where d4: "shuffle (d3 @ replicate (n - 1) EXPLODING_KITTEN) r2 = (d4, r3)"
    by (cases "shuffle (d3 @ replicate (n - 1) EXPLODING_KITTEN) r2")
  have d4l: "length d4 = length d3 + (n - 1)"
    using shuffle_length [of "d3 @ replicate (n - 1) EXPLODING_KITTEN" r2] d4 by simp
  have "filter (\<lambda>c. c = EXPLODING_KITTEN) d3 = []" using d3k by (auto simp: filter_empty_conv)
  then have d4k: "length (filter (\<lambda>c. c = EXPLODING_KITTEN) d4) = n - 1"
    using shuffle_count [of "\<lambda>c. c = EXPLODING_KITTEN" "d3 @ replicate (n - 1) EXPLODING_KITTEN" r2]
      d4 by simp
  have "setup_game n r =
          Inr (\<lparr>players = ps, deck = d4, discard = [], current_player_idx = 0,
                turns_remaining = 1, game_over = False, winner = None,
                top_three_known_by = None\<rparr>, r3)"
    using d1 deal(1) d3 d4 by (simp add: setup_game_def fresh_players_def)
  moreover have "list_all2 (dealt base_deck) (fresh_players n) ps"
  proof (rule list_all2_mono [OF deal(2)])
    fix p p' assume "dealt d1 p p'"
    then show "dealt base_deck p p'" using d1s by (simp add: dealt_def)
  qed
  moreover have "length d4 + 4 * n = 48 + (n - 1)"
    using d4l d3l deal(3) d1l by (simp add: fresh_players_simps)
  ultimately show ?thesis using d4k by (intro exI [of _ ps] exI [of _ d4] exI [of _ r3]) simp
qed

lemma setup_game_fails:
  assumes "12 \<le> n"
  shows "setup_game n r = Inl IndexError"
proof -
  obtain d1 r1 where d1: "shuffle base_deck r = (d1, r1)" by (cases "shuffle base_deck r")
  have d1l: "length d1 = 46"
    using shuffle_length [of base_deck r] d1 by (simp add: base_deck_length)
  have "length d1 < 4 * length (fresh_players n)"
    using assms d1l by (simp add: fresh_players_simps)
  from deal_hands_fails [OF this] d1 show ?thesis
    by (simp add: setup_game_def fresh_players_def)
qed

lemma new_game_returns:
  assumes "n \<le> 11"
  shows "\<exists>g r'. new_game n r = Inr (g, r')
          \<and> num_players g = n \<and> action_history g = []
          \<and> list_all2 (dealt base_deck) (fresh_players n) (players (state g))
          \<and> length (deck (state g)) + 4 * n = 48 + (n - 1)
          \<and> kittens_in_deck (state g) = n - 1
          \<and> discard (state g) = [] \<and> current_player_idx (state g) = 0
          \<and> turns_remaining (state g) = 1 \<and> \<not> game_over (state g)
          \<and> winner (state g) = None \<and> top_three_known_by (state g) = None"
proof -
  from setup_game_returns [OF assms, of r] obtain ps d r' where
    s: "setup_game n r =
            Inr (\<lparr>players = ps, deck = d, discard = [], current_player_idx = 0,
                  turns_remaining = 1, game_over = False, winner = None,
                  top_three_known_by = None\<rparr>, r')"
       "list_all2 (dealt base_deck) (fresh_players n) ps"
       "length d + 4 * n = 48 + (n - 1)"
       "length (filter (\<lambda>c. c = EXPLODING_KITTEN) d) = n - 1" by blast
  show ?thesis using s by (simp add: new_game_def kittens_in_deck_def)
qed

lemma new_game_fails: "12 \<le> n \<Longrightarrow> new_game n r = Inl IndexError"
  by (simp add: new_game_def setup_game_fails)

lemma new_game_facts:
  assumes "new_game n r = Inr (g, r')"
  shows "n \<le> 11" "num_players g = n"
    "list_all2 (dealt base_deck) (fresh_players n) (players (state g))"
    "length (deck (state g)) + 4 * n = 48 + (n - 1)"
    "kittens_in_deck (state g) = n - 1"
    "discard (state g) = []" "current_player_idx (state g) = 0"
    "winner (state g) = None"
proof -
  show n: "n \<le> 11"
  proof (rule ccontr)
    assume "\<not> n \<le> 11"
    then have "12 \<le> n" by simp
    from new_game_fails [OF this, of r] assms show False by simp
  qed
  from new_game_returns [OF n, of r] assms
  show "num_players g = n"
    "list_all2 (dealt base_deck) (fresh_players n) (players (state g))"
    "length (deck (state g)) + 4 * n = 48 + (n - 1)"
    "kittens_in_deck (state g) = n - 1"
    "discard (state g) = []" "current_player_idx (state g) = 0"
    "winner (state g) = None"
    by auto
qed

lemma new_game_total:
  assumes "new_game n r = Inr (g, r')"
  shows "total_cards g = 48 + n + (n - 1)"
proof -
  note f = new_game_facts [OF assms]
  from dealt_maps [OF f(3)] have "hand_total (players (state g)) = 5 * n"
    by (simp add: fresh_players_simps)
  then show ?thesis using f(4,6) by (simp add: total_cards_alt)
qed

lemma alive_count_conv: "length (filter alive qs) = count_list (map alive qs) True"
  by (induction qs) auto

lemma count_list_replicate: "count_list (replicate n x) x = n"
  by (induction n) auto

lemma new_game_inv:
  assumes "new_game n r = Inr (g, r')" "1 \<le> n"
  shows "game_inv g"
proof -
  note f = new_game_facts [OF assms(1)]
  from dealt_maps [OF f(3)] have m: "map pid (players (state g)) = [0..<n]"
    "map alive (players (state g)) = replicate n True"
    by (simp_all add: fresh_players_simps)
  from m(1) have l: "length (players (state g)) = n" by (metis length_map length_upt diff_zero)
  have "length (filter alive (players (state g))) = n"
    by (simp only: alive_count_conv m(2) count_list_replicate)
  then show ?thesis using f(2,5,6,7,8) m(1) l assms(2)
    by (simp add: game_inv_def alive_players_def)
qed

lemma inv_frame:
  assumes "game_inv g"
    and "num_players g' = num_players g"
    and "map pid (players (state g')) = map pid (players (state g))"
    and "map alive (players (state g')) = map alive (players (state g))"
    and "kittens_in_deck (state g') \<le> kittens_in_deck (state g)"
    and "None \<notin> set (discard (state g'))"
    and "current_player_idx (state g') = current_player_idx (state g)"
    and "winner (state g') = winner (state g)" "game_over (state g') = game_over (state g)"
  shows "game_inv g'"
proof -
  have l: "length (players (state g')) = length (players (state g))"
    using assms(3) by (metis length_map)
  have a: "length (alive_players (state g')) = length (alive_players (state g))"
    unfolding alive_players_def using assms(4) by (rule alive_count_map)
  show ?thesis using assms l a unfolding game_inv_def by simp
qed

lemma filter_butlast_count:
  "d \<noteq> [] \<Longrightarrow>
   length (filter P d) = length (filter P (butlast d)) + (if P (last d) then 1 else 0)"
proof -
  assume "d \<noteq> []"
  then have "d = butlast d @ [last d]" by simp
  then have "filter P d = filter P (butlast d) @ filter P [last d]"
    by (metis filter_append)
  then show ?thesis by simp
qed

lemma end_turn_inv:
  assumes "game_inv g"
  shows "\<exists>g'. end_turn g = Some (Inr g') \<and> game_inv g'"
proof -
  from end_turn_returns [OF inv_turn_ready [OF assms]] obtain k t where
    e: "end_turn g = Some (Inr (set_turn k t g))"
    and k: "if turns_remaining (state g) - 1 \<le> 0
            then t = 1 \<and> first_alive_from (players (state g)) (next_start g) k
            else t = turns_remaining (state g) - 1 \<and> k = current_player_idx (state g)"
    by blast
  have "k < length (players (state g))"
  proof (cases "turns_remaining (state g) - 1 \<le> 0")
    case True
    with k have "first_alive_from (players (state g)) (next_start g) k" by simp
    then show ?thesis by (rule first_alive_from_less)
  next
    case False
    with k assms show ?thesis by (simp add: game_inv_def)
  qed
  from set_turn_inv [OF assms this] e show ?thesis by blast
qed

lemma do_attack_inv:
  assumes "game_inv g"
  shows "\<exists>g'. do_attack g = Some (Inr g') \<and> game_inv g'"
proof -
  from do_attack_returns [OF inv_turn_ready [OF assms]] obtain k where
    e: "do_attack g = Some (Inr (set_turn k 2 g))"
    and k: "first_alive_from (players (state g)) (next_start g) k" by blast
  from set_turn_inv [OF assms first_alive_from_less [OF k]] e show ?thesis by blast
qed

lemma draw_resolve_inv:
  assumes "game_inv g"
  shows "game_inv (fst (draw_resolve g r))"
proof -
  let ?s = "state g"
  let ?i = "current_player_idx ?s"
  let ?ps = "players ?s"
  let ?h = "hand (?ps ! ?i)"
  let ?K = "\<lambda>c. c = EXPLODING_KITTEN"
  from assms have i: "?i < length ?ps" by (simp add: game_inv_def)
  show ?thesis
  proof (cases "deck ?s = []")
    case True
    then show ?thesis using assms by (simp add: draw_resolve_def)
  next
    case ne: False
    note cnt = filter_butlast_count [OF ne, of ?K]
    show ?thesis
    proof (cases "last (deck ?s) = EXPLODING_KITTEN")
      case False
      let ?g1 = "g\<lparr>state := upd_player ?i (\<lambda>p. p\<lparr>hand := hand p @ [last (deck ?s)]\<rparr>)
                                   (?s\<lparr>deck := butlast (deck ?s)\<rparr>)\<rparr>"
      have r: "fst (draw_resolve g r) = ?g1" using ne False by (simp add: draw_resolve_def Let_def)
      have "game_inv ?g1"
        using assms cnt False
        by (intro inv_frame [OF assms]) (simp_all add: map_update_same kittens_in_deck_def game_inv_def)
      then show ?thesis using r by simp
    next
      case ek: True
      show ?thesis
      proof (cases "DEFUSE \<in> set ?h")
        case True
        obtain pos r1 where pos: "randint0 (length (butlast (deck ?s))) r = (pos, r1)"
          by (cases "randint0 (length (butlast (deck ?s))) r")
        let ?g1 = "g\<lparr>state := ?s\<lparr>players := ?ps[?i := (?ps ! ?i)\<lparr>hand := remove1 DEFUSE ?h\<rparr>],
                                    discard := discard ?s @ [Some DEFUSE],
                                    deck := insert_card EXPLODING_KITTEN pos (butlast (deck ?s))\<rparr>\<rparr>"
        have r: "fst (draw_resolve g r) = ?g1" using ne ek True pos
          by (simp add: draw_resolve_def Let_def has_card_iff remove_card_eq upd_player_def)
        have "game_inv ?g1"
          using assms cnt ek
          by (intro inv_frame [OF assms])
            (simp_all add: map_update_same kittens_in_deck_def game_inv_def insert_card_count)
        then show ?thesis using r by simp
      next
        case False
        let ?ps1 = "?ps[?i := (?ps ! ?i)\<lparr>alive := False\<rparr>]"
        let ?g1 = "g\<lparr>state := ?s\<lparr>players := ?ps1,
                                    deck := butlast (deck ?s),
                                    discard := discard ?s @ [Some EXPLODING_KITTEN]\<rparr>\<rparr>"
        have r: "fst (draw_resolve g r) = ?g1" using ne ek False
          by (simp add: draw_resolve_def Let_def has_card_iff upd_player_def)
        have al: "length (filter alive ?ps1) + 1 \<ge> length (filter alive ?ps)"
          using alive_count_update [OF i, of "(?ps ! ?i)\<lparr>alive := False\<rparr>"]
          by (cases "alive (?ps ! ?i)") simp_all
        have k: "length (filter ?K (butlast (deck ?s))) + 1 = length (filter ?K (deck ?s))"
          using cnt ek by simp
        have "game_inv ?g1"
          using assms al k
          by (simp add: game_inv_def kittens_in_deck_def alive_players_def map_update_same)
        then show ?thesis using r by simp
      qed
    qed
  qed
qed

lemma draw_resolve_frame:
  "num_players (fst (draw_resolve g r)) = num_players g"
  "current_player_idx (state (fst (draw_resolve g r))) = current_player_idx (state g)"
  by (simp_all add: draw_resolve_def Let_def split: prod.splits)

lemma do_draw_inv:
  assumes "game_inv g"
  shows "\<exists>g' r'. do_draw g r = Some (Inr (g', r')) \<and> game_inv g'"
proof -
  obtain g1 r1 where g1: "draw_resolve g r = (g1, r1)" by (cases "draw_resolve g r")
  have "game_inv g1" using draw_resolve_inv [OF assms, of r] g1 by simp
  from end_turn_inv [OF this] obtain g' where "end_turn g1 = Some (Inr g')" "game_inv g'" by blast
  moreover have "current_player_idx (state g) < length (players (state g))"
    using assms by (simp add: game_inv_def)
  ultimately show ?thesis using g1 by (simp add: do_draw_factor)
qed

lemma pid_index:
  assumes "map pid ps = [0..<length ps]" "other \<in> set ps"
  shows "pid other < length ps"
proof -
  from assms(2) obtain j where j: "j < length ps" "ps ! j = other" by (metis in_set_conv_nth)
  then have "pid other = map pid ps ! j" by simp
  also have "\<dots> = j" using assms(1) j(1) by simp
  finally show ?thesis using j(1) by simp
qed

lemma steal_game_inv:
  assumes "game_inv g" "t < length (players (state g))" "i < length (players (state g))"
  shows "\<exists>g' r'. steal_game i t g r = Some (Inr (g', r')) \<and> game_inv g'"
proof -
  from steal_returns [OF assms(2), where i = i and r = r] obtain s' r' where
    s: "steal i t (state g) r = Inr (s', r')" by blast
  from steal_effect [OF s assms(3)] obtain ps' where
    p: "s' = (state g)\<lparr>players := ps'\<rparr>" "map pid ps' = map pid (players (state g))"
       "map alive ps' = map alive (players (state g))" by blast
  have "game_inv (g\<lparr>state := s'\<rparr>)"
    using assms(1) p by (intro inv_frame [OF assms(1)]) (simp_all add: kittens_in_deck_def game_inv_def)
  then show ?thesis using s by (simp add: steal_game_def)
qed

lemma shuffle_deck_inv:
  assumes "game_inv g" "shuffle_deck (state g) r = (s', r')"
  shows "game_inv (g\<lparr>state := s'\<rparr>)"
proof -
  obtain d where d: "shuffle (deck (state g)) r = (d, r')"
    "s' = (state g)\<lparr>deck := d, top_three_known_by := None\<rparr>"
    using assms(2) by (auto simp: shuffle_deck_def split: prod.splits)
  have "length (filter (\<lambda>c. c = EXPLODING_KITTEN) d)
          = length (filter (\<lambda>c. c = EXPLODING_KITTEN) (deck (state g)))"
    using shuffle_count [of "\<lambda>c. c = EXPLODING_KITTEN" "deck (state g)" r] d(1) by simp
  then show ?thesis using assms(1) d(2)
    by (intro inv_frame [OF assms(1)]) (simp_all add: kittens_in_deck_def game_inv_def)
qed

lemma card_played_inv: "game_inv g \<Longrightarrow> game_inv (card_played ct g)"
  by (rule inv_frame)
    (simp_all add: card_played_def Let_def map_update_same kittens_in_deck_def game_inv_def)

lemma apply_play_card:
  "ct \<in> set (hand (players (state g) ! current_player_idx (state g))) \<Longrightarrow>
   apply_action (current_player_idx (state g)) (PlayCard ct tgt stl) g r
     = play_effect (current_player_idx (state g)) ct tgt (card_played ct g) r"
  by (simp add: remove_card_eq card_played_def Let_def upd_player_def)

lemma card_played_frame [simp]:
  "num_players (card_played ct g) = num_players g"
  "length (players (state (card_played ct g))) = length (players (state g))"
  "current_player_idx (state (card_played ct g)) = current_player_idx (state g)"
  "deck (state (card_played ct g)) = deck (state g)"
  "turns_remaining (state (card_played ct g)) = turns_remaining (state g)"
  "top_three_known_by (state (card_played ct g)) = top_three_known_by (state g)"
  "map pid (players (state (card_played ct g))) = map pid (players (state g))"
  "map alive (players (state (card_played ct g))) = map alive (players (state g))"
  by (simp_all add: card_played_def Let_def map_update_same)

lemma play_effect_inv:
  assumes "game_inv g" "i = current_player_idx (state g)"
    and "ct = FAVOR \<longrightarrow> (\<exists>t. tgt = Some t \<and> t < length (players (state g)))"
  shows "\<exists>g' r'. play_effect i ct tgt g r = Some (Inr (g', r')) \<and> game_inv g'"
proof -
  from assms(1,2) have i: "i < length (players (state g))" by (simp add: game_inv_def)
  consider (attack) "ct = ATTACK" | (skip) "ct = SKIP" | (shuffle) "ct = SHUFFLE"
    | (future) "ct = SEE_THE_FUTURE" | (favor) "ct = FAVOR"
    | (other) "ct \<notin> {ATTACK, SKIP, SHUFFLE, SEE_THE_FUTURE, FAVOR}" by blast
  then show ?thesis
  proof cases
    case attack
    from do_attack_inv [OF assms(1)] show ?thesis using attack by (auto simp: play_effect_def)
  next
    case skip
    from end_turn_inv [OF assms(1)] show ?thesis using skip
      by (auto simp: play_effect_def do_skip_def)
  next
    case shuffle
    obtain s1 r1 where s1: "shuffle_deck (state g) r = (s1, r1)" by (cases "shuffle_deck (state g) r")
    from shuffle_deck_inv [OF assms(1) s1] show ?thesis using shuffle s1
      by (simp add: play_effect_def)
  next
    case future
    have "game_inv (g\<lparr>state := (state g)\<lparr>top_three_known_by := Some (pid (players (state g) ! i))\<rparr>\<rparr>)"
      using assms(1) by (intro inv_frame [OF assms(1)]) (simp_all add: kittens_in_deck_def game_inv_def)
    then show ?thesis using future by (simp add: play_effect_def)
  next
    case favor
    with assms(3) obtain t where t: "tgt = Some t" "t < length (players (state g))" by blast
    from steal_game_inv [OF assms(1) t(2) i, where r = r] show ?thesis using favor t(1)
      by (simp add: play_effect_def)
  next
    case other
    then show ?thesis using assms(1) by (simp add: play_effect_def)
  qed
qed

lemma apply_action_inv:
  assumes "game_inv g" "is_legal g a"
  shows "\<exists>g' r'. apply_action (current_player_idx (state g)) a g r = Some (Inr (g', r'))
                  \<and> game_inv g'"
proof -
  let ?i = "current_player_idx (state g)"
  let ?ps = "players (state g)"
  let ?h = "hand (?ps ! ?i)"
  from assms(1) have i: "?i < length ?ps" and ids: "map pid ?ps = [0..<length ?ps]"
    by (simp_all add: game_inv_def)
  from is_legal_cases [OF assms(2)]
  consider (pass) "a = Pass"
    | (card) ct where "a = PlayCard ct None None" "ct \<in> set ?h"
        "ct \<in> {ATTACK, SKIP, SHUFFLE, SEE_THE_FUTURE}"
    | (favor) other where "a = PlayCard FAVOR (Some (pid other)) None" "FAVOR \<in> set ?h"
        "other \<in> set ?ps"
    | (pair) cat other where "a = PlayCatPair cat (pid other)"
        "2 \<le> length (filter (\<lambda>c. c = cat) ?h)" "other \<in> set ?ps"
    by blast
  then show ?thesis
  proof cases
    case pass
    then show ?thesis using do_draw_inv [OF assms(1)] by simp
  next
    case card
    have "ct \<noteq> FAVOR" using card(3) by auto
    then have "\<exists>g' r'. play_effect ?i ct None (card_played ct g) r = Some (Inr (g', r'))
                 \<and> game_inv g'"
      using play_effect_inv [OF card_played_inv [OF assms(1)], where i = ?i and ct = ct
          and tgt = None and r = r] by simp
    then show ?thesis using card(1) apply_play_card [OF card(2)] by simp
  next
    case favor
    have "pid other < length ?ps" using pid_index [OF ids favor(3)] .
    then have "\<exists>g' r'. play_effect ?i FAVOR (Some (pid other)) (card_played FAVOR g) r
                  = Some (Inr (g', r')) \<and> game_inv g'"
      using play_effect_inv [OF card_played_inv [OF assms(1)], where i = ?i and ct = FAVOR
          and tgt = "Some (pid other)" and r = r]
      by simp
    then show ?thesis using favor(1) apply_play_card [OF favor(2)] by simp
  next
    case pair
    let ?g3 = "g\<lparr>state := (state g)\<lparr>players := ?ps[?i := (?ps ! ?i)\<lparr>hand := remove1 cat (remove1 cat ?h)\<rparr>],
                         discard := discard (state g) @ [Some cat, Some cat]\<rparr>\<rparr>"
    have e: "apply_action ?i a g r = steal_game ?i (pid other) ?g3 r"
      using pair(1) i by (simp add: remove_card_eq Let_def upd_player_def)
    have inv3: "game_inv ?g3"
      using assms(1)
      by (intro inv_frame [OF assms(1)]) (simp_all add: map_update_same kittens_in_deck_def game_inv_def)
    have "pid other < length (players (state ?g3))" using pid_index [OF ids pair(3)] by simp
    moreover have "?i < length (players (state ?g3))" using i by simp
    ultimately show ?thesis using steal_game_inv [OF inv3, where t = "pid other" and i = ?i and r = r] e by simp
  qed
qed

lemma execute_action_returns:
  assumes "game_inv g" "is_legal g a"
  shows "\<exists>g' r'. execute_action a g r = Some (Inr (g', r')) \<and> game_inv g'"
proof -
  from apply_action_inv [OF assms, of r] obtain g1 r1 where
    a: "apply_action (current_player_idx (state g)) a g r = Some (Inr (g1, r1))" "game_inv g1"
    by blast
  have "current_player_idx (state g) < length (players (state g))"
    using assms(1) by (simp add: game_inv_def)
  then have "execute_action a g r
      = Some (Inr (finish (pid (players (state g) ! current_player_idx (state g))) a g1, r1))"
    using a(1) by (simp add: execute_action_def Let_def)
  then show ?thesis using finish_inv [OF a(2)] by blast
qed

lemma execute_action_inv:
  assumes "game_inv g" "is_legal g a" "execute_action a g r = Some (Inr (g', r'))"
  shows "game_inv g'"
  using execute_action_returns [OF assms(1,2), of r] assms(3) by auto

lemma reachable_inv: "reachable g0 g \<Longrightarrow> game_inv g0 \<Longrightarrow> game_inv g"
  by (induction rule: reachable.induct) (auto intro: execute_action_inv)

lemma reachable_total: "reachable g0 g \<Longrightarrow> total_cards g = total_cards g0"
  by (induction rule: reachable.induct) (auto dest: execute_action_total)

lemma pass_is_legal:
  "current_player_idx (state g) < length (players (state g)) \<Longrightarrow> is_legal g Pass"
  by (simp add: is_legal_def get_legal_actions_def Let_def)

section \<open>What the turn and the playouts need of a game\<close>

lemma game_inv_play: "game_inv g \<Longrightarrow> play_inv g"
  by (simp add: game_inv_def play_inv_def)

lemma game_inv_iff: "game_inv g \<longleftrightarrow> play_inv g \<and> None \<notin> set (discard (state g))"
  by (auto simp: game_inv_def play_inv_def)

lemma play_frame:
  assumes "play_inv g"
    and "num_players g' = num_players g"
    and "map pid (players (state g')) = map pid (players (state g))"
    and "map alive (players (state g')) = map alive (players (state g))"
    and "kittens_in_deck (state g') \<le> kittens_in_deck (state g)"
    and "current_player_idx (state g') = current_player_idx (state g)"
    and "winner (state g') = winner (state g)" "game_over (state g') = game_over (state g)"
  shows "play_inv g'"
proof -
  have l: "length (players (state g')) = length (players (state g))"
    using assms(3) by (metis length_map)
  have a: "length (alive_players (state g')) = length (alive_players (state g))"
    unfolding alive_players_def using assms(4) by (rule alive_count_map)
  show ?thesis using assms l a unfolding play_inv_def by simp
qed

lemma finish_play: "play_inv g \<Longrightarrow> play_inv (finish p a g)"
  using finish_winner [of g p a]
  by (simp add: play_inv_def alive_players_def kittens_in_deck_def)

lemma set_turn_play:
  "play_inv g \<Longrightarrow> k < length (players (state g)) \<Longrightarrow> play_inv (set_turn k t g)"
  by (simp add: play_inv_def alive_players_def kittens_in_deck_def)

lemma play_turn_ready: "play_inv g \<Longrightarrow> turn_ready g"
proof -
  assume a: "play_inv g"
  then have "0 < length (filter alive (players (state g)))"
    unfolding play_inv_def alive_players_def by linarith
  from alive_exists [OF this] a show ?thesis by (simp add: turn_ready_def play_inv_def)
qed

lemma end_turn_play:
  assumes "play_inv g"
  shows "\<exists>g'. end_turn g = Some (Inr g') \<and> play_inv g'"
proof -
  from end_turn_returns [OF play_turn_ready [OF assms]] obtain k t where
    e: "end_turn g = Some (Inr (set_turn k t g))"
    and k: "if turns_remaining (state g) - 1 \<le> 0
            then t = 1 \<and> first_alive_from (players (state g)) (next_start g) k
            else t = turns_remaining (state g) - 1 \<and> k = current_player_idx (state g)"
    by blast
  have "k < length (players (state g))"
  proof (cases "turns_remaining (state g) - 1 \<le> 0")
    case True
    with k have "first_alive_from (players (state g)) (next_start g) k" by simp
    then show ?thesis by (rule first_alive_from_less)
  next
    case False
    with k assms show ?thesis by (simp add: play_inv_def)
  qed
  from set_turn_play [OF assms this] e show ?thesis by blast
qed

lemma do_attack_play:
  assumes "play_inv g"
  shows "\<exists>g'. do_attack g = Some (Inr g') \<and> play_inv g'"
proof -
  from do_attack_returns [OF play_turn_ready [OF assms]] obtain k where
    e: "do_attack g = Some (Inr (set_turn k 2 g))"
    and k: "first_alive_from (players (state g)) (next_start g) k" by blast
  from set_turn_play [OF assms first_alive_from_less [OF k]] e show ?thesis by blast
qed

lemma draw_resolve_play:
  assumes "play_inv g"
  shows "play_inv (fst (draw_resolve g r))"
proof -
  let ?s = "state g"
  let ?i = "current_player_idx ?s"
  let ?ps = "players ?s"
  let ?h = "hand (?ps ! ?i)"
  let ?K = "\<lambda>c. c = EXPLODING_KITTEN"
  from assms have i: "?i < length ?ps" by (simp add: play_inv_def)
  show ?thesis
  proof (cases "deck ?s = []")
    case True
    then show ?thesis using assms by (simp add: draw_resolve_def)
  next
    case ne: False
    note cnt = filter_butlast_count [OF ne, of ?K]
    show ?thesis
    proof (cases "last (deck ?s) = EXPLODING_KITTEN")
      case False
      let ?g1 = "g\<lparr>state := upd_player ?i (\<lambda>p. p\<lparr>hand := hand p @ [last (deck ?s)]\<rparr>)
                                   (?s\<lparr>deck := butlast (deck ?s)\<rparr>)\<rparr>"
      have r: "fst (draw_resolve g r) = ?g1" using ne False by (simp add: draw_resolve_def Let_def)
      have "play_inv ?g1"
        using assms cnt False
        by (intro play_frame [OF assms]) (simp_all add: map_update_same kittens_in_deck_def)
      then show ?thesis using r by simp
    next
      case ek: True
      show ?thesis
      proof (cases "DEFUSE \<in> set ?h")
        case True
        obtain pos r1 where pos: "randint0 (length (butlast (deck ?s))) r = (pos, r1)"
          by (cases "randint0 (length (butlast (deck ?s))) r")
        let ?g1 = "g\<lparr>state := ?s\<lparr>players := ?ps[?i := (?ps ! ?i)\<lparr>hand := remove1 DEFUSE ?h\<rparr>],
                                    discard := discard ?s @ [Some DEFUSE],
                                    deck := insert_card EXPLODING_KITTEN pos (butlast (deck ?s))\<rparr>\<rparr>"
        have r: "fst (draw_resolve g r) = ?g1" using ne ek True pos
          by (simp add: draw_resolve_def Let_def has_card_iff remove_card_eq upd_player_def)
        have "play_inv ?g1"
          using assms cnt ek
          by (intro play_frame [OF assms])
            (simp_all add: map_update_same kittens_in_deck_def insert_card_count)
        then show ?thesis using r by simp
      next
        case False
        let ?ps1 = "?ps[?i := (?ps ! ?i)\<lparr>alive := False\<rparr>]"
        let ?g1 = "g\<lparr>state := ?s\<lparr>players := ?ps1,
                                    deck := butlast (deck ?s),
                                    discard := discard ?s @ [Some EXPLODING_KITTEN]\<rparr>\<rparr>"
        have r: "fst (draw_resolve g r) = ?g1" using ne ek False
          by (simp add: draw_resolve_def Let_def has_card_iff upd_player_def)
        have al: "length (filter alive ?ps1) + 1 \<ge> length (filter alive ?ps)"
          using alive_count_update [OF i, of "(?ps ! ?i)\<lparr>alive := False\<rparr>"]
          by (cases "alive (?ps ! ?i)") simp_all
        have k: "length (filter ?K (butlast (deck ?s))) + 1 = length (filter ?K (deck ?s))"
          using cnt ek by simp
        have "play_inv ?g1"
          using assms al k
          by (simp add: play_inv_def kittens_in_deck_def alive_players_def map_update_same)
        then show ?thesis using r by simp
      qed
    qed
  qed
qed

lemma do_draw_play:
  assumes "play_inv g"
  shows "\<exists>g' r'. do_draw g r = Some (Inr (g', r')) \<and> play_inv g'"
proof -
  obtain g1 r1 where g1: "draw_resolve g r = (g1, r1)" by (cases "draw_resolve g r")
  have "play_inv g1" using draw_resolve_play [OF assms, of r] g1 by simp
  from end_turn_play [OF this] obtain g' where "end_turn g1 = Some (Inr g')" "play_inv g'" by blast
  moreover have "current_player_idx (state g) < length (players (state g))"
    using assms by (simp add: play_inv_def)
  ultimately show ?thesis using g1 by (simp add: do_draw_factor)
qed

lemma steal_game_play:
  assumes "play_inv g" "t < length (players (state g))" "i < length (players (state g))"
  shows "\<exists>g' r'. steal_game i t g r = Some (Inr (g', r')) \<and> play_inv g'"
proof -
  from steal_returns [OF assms(2), where i = i and r = r] obtain s' r' where
    s: "steal i t (state g) r = Inr (s', r')" by blast
  from steal_effect [OF s assms(3)] obtain ps' where
    p: "s' = (state g)\<lparr>players := ps'\<rparr>" "map pid ps' = map pid (players (state g))"
       "map alive ps' = map alive (players (state g))" by blast
  have "play_inv (g\<lparr>state := s'\<rparr>)"
    using assms(1) p by (intro play_frame [OF assms(1)]) (simp_all add: kittens_in_deck_def)
  then show ?thesis using s by (simp add: steal_game_def)
qed

lemma shuffle_deck_play:
  assumes "play_inv g" "shuffle_deck (state g) r = (s', r')"
  shows "play_inv (g\<lparr>state := s'\<rparr>)"
proof -
  obtain d where d: "shuffle (deck (state g)) r = (d, r')"
    "s' = (state g)\<lparr>deck := d, top_three_known_by := None\<rparr>"
    using assms(2) by (auto simp: shuffle_deck_def split: prod.splits)
  have "length (filter (\<lambda>c. c = EXPLODING_KITTEN) d)
          = length (filter (\<lambda>c. c = EXPLODING_KITTEN) (deck (state g)))"
    using shuffle_count [of "\<lambda>c. c = EXPLODING_KITTEN" "deck (state g)" r] d(1) by simp
  then show ?thesis using assms(1) d(2)
    by (intro play_frame [OF assms(1)]) (simp_all add: kittens_in_deck_def)
qed

lemma card_gone_play: "play_inv g \<Longrightarrow> play_inv (card_gone ct g)"
  by (rule play_frame)
    (simp_all add: card_gone_def Let_def map_update_same kittens_in_deck_def)

lemma card_gone_frame [simp]:
  "length (players (state (card_gone ct g))) = length (players (state g))"
  "current_player_idx (state (card_gone ct g)) = current_player_idx (state g)"
  by (simp_all add: card_gone_def Let_def)

lemma apply_card_gone:
  "apply_action (current_player_idx (state g)) (PlayCard ct tgt stl) g r
     = play_effect (current_player_idx (state g)) ct tgt (card_gone ct g) r"
  by (simp add: remove_card_eq card_gone_def Let_def upd_player_def)

lemma play_effect_play:
  assumes "play_inv g" "i = current_player_idx (state g)"
    and "ct = FAVOR \<longrightarrow> (\<exists>t. tgt = Some t \<and> t < length (players (state g)))"
  shows "\<exists>g' r'. play_effect i ct tgt g r = Some (Inr (g', r')) \<and> play_inv g'"
proof -
  from assms(1,2) have i: "i < length (players (state g))" by (simp add: play_inv_def)
  consider (attack) "ct = ATTACK" | (skip) "ct = SKIP" | (shuffle) "ct = SHUFFLE"
    | (future) "ct = SEE_THE_FUTURE" | (favor) "ct = FAVOR"
    | (other) "ct \<notin> {ATTACK, SKIP, SHUFFLE, SEE_THE_FUTURE, FAVOR}" by blast
  then show ?thesis
  proof cases
    case attack
    from do_attack_play [OF assms(1)] show ?thesis using attack by (auto simp: play_effect_def)
  next
    case skip
    from end_turn_play [OF assms(1)] show ?thesis using skip
      by (auto simp: play_effect_def do_skip_def)
  next
    case shuffle
    obtain s1 r1 where s1: "shuffle_deck (state g) r = (s1, r1)" by (cases "shuffle_deck (state g) r")
    from shuffle_deck_play [OF assms(1) s1] show ?thesis using shuffle s1
      by (simp add: play_effect_def)
  next
    case future
    have "play_inv (g\<lparr>state := (state g)\<lparr>top_three_known_by := Some (pid (players (state g) ! i))\<rparr>\<rparr>)"
      using assms(1) by (intro play_frame [OF assms(1)]) (simp_all add: kittens_in_deck_def)
    then show ?thesis using future by (simp add: play_effect_def)
  next
    case favor
    with assms(3) obtain t where t: "tgt = Some t" "t < length (players (state g))" by blast
    from steal_game_play [OF assms(1) t(2) i, where r = r] show ?thesis using favor t(1)
      by (simp add: play_effect_def)
  next
    case other
    then show ?thesis using assms(1) by (simp add: play_effect_def)
  qed
qed

lemma apply_action_play:
  assumes "play_inv g" "replayable g a"
  shows "\<exists>g' r'. apply_action (current_player_idx (state g)) a g r = Some (Inr (g', r'))
                  \<and> play_inv g'"
proof (cases a)
  case (PlayCard ct tgt stl)
  have f: "ct = FAVOR \<longrightarrow> (\<exists>t. tgt = Some t \<and> t < length (players (state (card_gone ct g))))"
    using assms(2) PlayCard by (auto split: option.splits if_splits)
  have "\<exists>g' r'. play_effect (current_player_idx (state g)) ct tgt (card_gone ct g) r
                  = Some (Inr (g', r')) \<and> play_inv g'"
    using play_effect_play [OF card_gone_play [OF assms(1), of ct],
        where i = "current_player_idx (state g)" and ct = ct and tgt = tgt and r = r] f
    by simp
  then show ?thesis unfolding PlayCard apply_card_gone .
next
  case (PlayCatPair cat t)
  let ?i = "current_player_idx (state g)"
  let ?ps = "players (state g)"
  let ?h = "hand (?ps ! ?i)"
  from assms(1) have i: "?i < length ?ps" by (simp add: play_inv_def)
  let ?g3 = "g\<lparr>state := (state g)\<lparr>players := ?ps[?i := (?ps ! ?i)\<lparr>hand := remove1 cat (remove1 cat ?h)\<rparr>],
                         discard := discard (state g) @ [Some cat, Some cat]\<rparr>\<rparr>"
  have e: "apply_action ?i a g r = steal_game ?i t ?g3 r"
    using PlayCatPair i by (simp add: remove_card_eq Let_def upd_player_def)
  have inv3: "play_inv ?g3"
    using assms(1)
    by (intro play_frame [OF assms(1)]) (simp_all add: map_update_same kittens_in_deck_def)
  have "t < length (players (state ?g3))" using assms(2) PlayCatPair by simp
  moreover have "?i < length (players (state ?g3))" using i by simp
  ultimately show ?thesis
    using steal_game_play [OF inv3, where t = t and i = ?i and r = r] e by simp
next
  case PlayNope
  then show ?thesis using assms(1) by simp
next
  case Pass
  then show ?thesis using do_draw_play [OF assms(1)] by simp
next
  case (InsertExplodingKitten pos)
  then show ?thesis using assms(2) by simp
qed

lemma execute_action_play:
  assumes "play_inv g" "replayable g a"
  shows "\<exists>g' r'. execute_action a g r = Some (Inr (g', r')) \<and> play_inv g'"
proof -
  from apply_action_play [OF assms, of r] obtain g1 r1 where
    a: "apply_action (current_player_idx (state g)) a g r = Some (Inr (g1, r1))" "play_inv g1"
    by blast
  have "current_player_idx (state g) < length (players (state g))"
    using assms(1) by (simp add: play_inv_def)
  then have "execute_action a g r
      = Some (Inr (finish (pid (players (state g) ! current_player_idx (state g))) a g1, r1))"
    using a(1) by (simp add: execute_action_def Let_def)
  then show ?thesis using finish_play [OF a(2)] by blast
qed

lemma legal_replayable:
  assumes "play_inv g" "is_legal g a"
  shows "replayable g a"
proof -
  from assms(1) have ids: "map pid (players (state g)) = [0..<length (players (state g))]"
    by (simp add: play_inv_def)
  from is_legal_cases [OF assms(2)]
  consider (pass) "a = Pass"
    | (card) ct where "a = PlayCard ct None None" "ct \<in> {ATTACK, SKIP, SHUFFLE, SEE_THE_FUTURE}"
    | (favor) other where "a = PlayCard FAVOR (Some (pid other)) None"
        "other \<in> set (players (state g))"
    | (pair) cat other where "a = PlayCatPair cat (pid other)" "other \<in> set (players (state g))"
    by blast
  then show ?thesis
  proof cases
    case pass
    then show ?thesis by simp
  next
    case card
    then show ?thesis by auto
  next
    case favor
    then show ?thesis using pid_index [OF ids favor(2)] by simp
  next
    case pair
    then show ?thesis using pid_index [OF ids pair(2)] by simp
  qed
qed

section \<open>Example games\<close>

lemma ex_game_inv: "game_inv ex_game"
  by (simp add: game_inv_def ex_game_def kittens_in_deck_def alive_players_def upt_rec)

lemma ex_three_inv: "game_inv ex_three"
  by (simp add: game_inv_def ex_three_def kittens_in_deck_def alive_players_def upt_rec)

section \<open>C2: the attack\<close>

lemma first_alive_from_cong:
  assumes "map alive ps' = map alive ps"
  shows "first_alive_from ps' start k = first_alive_from ps start k"
proof -
  have l: "length ps' = length ps" using assms by (metis length_map)
  have al: "alive (ps' ! m) = alive (ps ! m)" if "m < length ps" for m
    using that l assms by (metis nth_map)
  show ?thesis
  proof (cases "length ps = 0")
    case True
    then show ?thesis using l by (simp add: first_alive_from_def)
  next
    case False
    then have "\<And>x. x mod length ps < length ps" by simp
    then show ?thesis unfolding first_alive_from_def l using al by auto
  qed
qed

lemma play_attack:
  assumes "turn_ready g"
    and "ATTACK \<in> set (hand (players (state g) ! current_player_idx (state g)))"
  shows "\<exists>k. first_alive_from (players (state g)) (next_start g) k \<and>
           execute_action (PlayCard ATTACK tgt stl) g r =
             Some (Inr (finish (pid (players (state g) ! current_player_idx (state g)))
                          (PlayCard ATTACK tgt stl) (set_turn k 2 (card_played ATTACK g)), r))"
proof -
  let ?g1 = "card_played ATTACK g"
  have i: "current_player_idx (state g) < length (players (state g))"
    using assms(1) by (simp add: turn_ready_def)
  from assms(1) obtain j where j: "j < length (players (state g))" "alive (players (state g) ! j)"
    by (auto simp: turn_ready_def)
  have al: "alive (players (state ?g1) ! m) = alive (players (state g) ! m)"
    if m: "m < length (players (state g))" for m
  proof -
    have "alive (players (state ?g1) ! m) = map alive (players (state ?g1)) ! m"
      using m by (simp del: card_played_frame(8))
    also have "\<dots> = map alive (players (state g)) ! m" by (simp only: card_played_frame)
    also have "\<dots> = alive (players (state g) ! m)" using m by simp
    finally show ?thesis .
  qed
  have "alive (players (state ?g1) ! j)" using j al by simp
  then have r1: "turn_ready ?g1" using assms(1) j(1) by (auto simp: turn_ready_def)
  from do_attack_returns [OF r1] obtain k where
    k: "do_attack ?g1 = Some (Inr (set_turn k 2 ?g1))"
       "first_alive_from (players (state ?g1)) (next_start ?g1) k" by blast
  have "first_alive_from (players (state g)) (next_start g) k"
    using k(2) first_alive_from_cong [of "players (state ?g1)" "players (state g)"]
    by (simp add: next_start_def)
  moreover have "execute_action (PlayCard ATTACK tgt stl) g r =
      Some (Inr (finish (pid (players (state g) ! current_player_idx (state g)))
                   (PlayCard ATTACK tgt stl) (set_turn k 2 ?g1), r))"
    using i k(1) apply_play_card [OF assms(2), of tgt stl r]
    by (simp add: execute_action_def Let_def play_effect_def)
  ultimately show ?thesis by blast
qed

text \<open>
  C2 (as the code has it). Playing an Attack that the current player holds ends the
  turn without drawing: the deck is as before, the Attack goes from the hand to the discard
  pile, the turn passes to the next alive player in seat order, and \<open>turns_remaining\<close>
  becomes 2 whatever it was before. There is no stacking: an Attack played while
  \<open>turns_remaining\<close> is already 2 hands the turn on and leaves the count at 2.
\<close>

theorem attack_sets_two_turns:
  assumes "turn_ready g"
    and "ATTACK \<in> set (hand (players (state g) ! current_player_idx (state g)))"
  shows "\<exists>g' k. execute_action (PlayCard ATTACK tgt stl) g r = Some (Inr (g', r))
           \<and> first_alive_from (players (state g)) (next_start g) k
           \<and> current_player_idx (state g') = k
           \<and> turns_remaining (state g') = 2
           \<and> deck (state g') = deck (state g)
           \<and> discard (state g') = discard (state g) @ [Some ATTACK]
           \<and> players (state g') = (players (state g))[current_player_idx (state g) :=
                 (players (state g) ! current_player_idx (state g))
                   \<lparr>hand := remove1 ATTACK
                      (hand (players (state g) ! current_player_idx (state g)))\<rparr>]"
proof -
  from play_attack [OF assms, of tgt stl r] obtain k where
    k: "first_alive_from (players (state g)) (next_start g) k"
       "execute_action (PlayCard ATTACK tgt stl) g r =
          Some (Inr (finish (pid (players (state g) ! current_player_idx (state g)))
                       (PlayCard ATTACK tgt stl) (set_turn k 2 (card_played ATTACK g)), r))"
    by blast
  show ?thesis
    by (rule exI, rule exI [of _ k], rule conjI, rule k(2))
       (simp add: k(1) card_played_def Let_def)
qed

theorem attack_sets_two_turns_witness:
  "turn_ready ex_attacked
   \<and> ATTACK \<in> set (hand (players (state ex_attacked) ! current_player_idx (state ex_attacked)))
   \<and> turns_remaining (state ex_attacked) = 2
   \<and> (\<exists>g'. execute_action (PlayCard ATTACK None None) ex_attacked [] = Some (Inr (g', []))
          \<and> current_player_idx (state g') = 2 \<and> turns_remaining (state g') = 2)"
proof -
  have a: "turn_ready ex_attacked"
    unfolding turn_ready_def by (rule conjI, simp add: ex_attacked_def, rule conjI,
        simp add: ex_attacked_def, rule exI [of _ 0], simp add: ex_attacked_def)
  have b: "ATTACK \<in> set (hand (players (state ex_attacked) ! current_player_idx (state ex_attacked)))"
    by (simp add: ex_attacked_def)
  from attack_sets_two_turns [OF a b, of None None "[]"] obtain g' k where
    g: "execute_action (PlayCard ATTACK None None) ex_attacked [] = Some (Inr (g', []))"
       "first_alive_from (players (state ex_attacked)) (next_start ex_attacked) k"
       "current_player_idx (state g') = k" "turns_remaining (state g') = 2" by blast
  have "execute_action (PlayCard ATTACK None None) ex_attacked [] = Some (Inr (ex_attacked_twice, []))"
    by code_simp
  with g(1) have "g' = ex_attacked_twice" by simp
  then have "current_player_idx (state g') = 2" by (simp add: ex_attacked_twice_def)
  then show ?thesis using a b g(1,4) by (simp add: ex_attacked_def)
qed

theorem attack_stacking_counterexample:
  "execute_action (PlayCard ATTACK None None) ex_three [] = Some (Inr (ex_attacked, []))
   \<and> current_player_idx (state ex_attacked) = 1 \<and> turns_remaining (state ex_attacked) = 2
   \<and> execute_action (PlayCard ATTACK None None) ex_attacked [] = Some (Inr (ex_attacked_twice, []))
   \<and> current_player_idx (state ex_attacked_twice) = 2
   \<and> turns_remaining (state ex_attacked_twice) = 2"
  by code_simp

section \<open>C3: actions outside the legal ones\<close>

text \<open>
  C3 (as the code has it). \<^verbatim>\<open>execute_action\<close> makes no legality check. For an action
  of \<^verbatim>\<open>get_legal_actions\<close>, in a game that satisfies the engine's invariant, it returns:
  it neither raises nor loops, and the game it returns satisfies the invariant again.
\<close>

theorem legal_action_returns:
  assumes "game_inv g" and "is_legal g a"
  shows "\<exists>g' r'. execute_action a g r = Some (Inr (g', r')) \<and> game_inv g'"
  using assms by (rule execute_action_returns)

theorem legal_action_returns_witness:
  "game_inv ex_game \<and> is_legal ex_game (PlayCard ATTACK None None)
   \<and> (\<exists>g' r'. execute_action (PlayCard ATTACK None None) ex_game [] = Some (Inr (g', r'))
          \<and> game_inv g')"
proof -
  have l: "is_legal ex_game (PlayCard ATTACK None None)" by code_simp
  from legal_action_returns [OF ex_game_inv l, of "[]"] ex_game_inv l show ?thesis by blast
qed

theorem illegal_action_counterexample:
  "\<not> is_legal ex_game (PlayCard SKIP None None)
   \<and> execute_action (PlayCard SKIP None None) ex_game [] = Some (Inr (ex_skipped, []))
   \<and> \<not> is_legal ex_game (InsertExplodingKitten 2)
   \<and> execute_action (InsertExplodingKitten 2) ex_game [] = Some (Inr (ex_inserted, []))"
  by code_simp

section \<open>C10: passing on an empty deck\<close>

text \<open>
  C10. When the deck is empty, Pass returns without drawing from the random source: the
  players (hands and alive flags), the deck and the discard pile are as before, and the
  turn ends: when \<open>turns_remaining - 1\<close> is 0 or less the next alive player in seat order
  becomes the current player with \<open>turns_remaining = 1\<close>, otherwise the same player goes on
  with \<open>turns_remaining - 1\<close>.
\<close>

theorem empty_deck_pass:
  assumes "turn_ready g" and "deck (state g) = []"
  shows "\<exists>g' k t. execute_action Pass g r = Some (Inr (g', r))
           \<and> players (state g') = players (state g)
           \<and> deck (state g') = [] \<and> discard (state g') = discard (state g)
           \<and> current_player_idx (state g') = k \<and> turns_remaining (state g') = t
           \<and> (if turns_remaining (state g) - 1 \<le> 0
                then t = 1 \<and> first_alive_from (players (state g)) (next_start g) k
                else t = turns_remaining (state g) - 1 \<and> k = current_player_idx (state g))"
proof -
  from end_turn_returns [OF assms(1)] obtain k t where
    e: "end_turn g = Some (Inr (set_turn k t g))"
    and k: "if turns_remaining (state g) - 1 \<le> 0
            then t = 1 \<and> first_alive_from (players (state g)) (next_start g) k
            else t = turns_remaining (state g) - 1 \<and> k = current_player_idx (state g)"
    by blast
  have i: "current_player_idx (state g) < length (players (state g))"
    using assms(1) by (simp add: turn_ready_def)
  have "execute_action Pass g r =
          Some (Inr (finish (pid (players (state g) ! current_player_idx (state g))) Pass
                       (set_turn k t g), r))"
    using i assms(2) e by (simp add: execute_action_def do_draw_def Let_def)
  then show ?thesis using k assms(2)
    by (intro exI [of _ "finish (pid (players (state g) ! current_player_idx (state g))) Pass
                       (set_turn k t g)"] exI [of _ k] exI [of _ t]) simp
qed

theorem empty_deck_pass_witness:
  "turn_ready ex_empty \<and> deck (state ex_empty) = []
   \<and> (\<exists>g'. execute_action Pass ex_empty [] = Some (Inr (g', []))
          \<and> players (state g') = players (state ex_empty)
          \<and> deck (state g') = [] \<and> discard (state g') = discard (state ex_empty)
          \<and> current_player_idx (state g') = 0 \<and> turns_remaining (state g') = 1)"
proof -
  have a: "turn_ready ex_empty"
    unfolding turn_ready_def by (rule conjI, simp add: ex_empty_def, rule conjI,
        simp add: ex_empty_def, rule exI [of _ 0], simp add: ex_empty_def)
  have b: "deck (state ex_empty) = []" by (simp add: ex_empty_def)
  from empty_deck_pass [OF a b, of "[]"] obtain g' where
    g: "execute_action Pass ex_empty [] = Some (Inr (g', []))"
       "players (state g') = players (state ex_empty)"
       "deck (state g') = []" "discard (state g') = discard (state ex_empty)"
    by blast
  have "execute_action Pass ex_empty [] = Some (Inr (ex_empty_passed, []))" by code_simp
  with g(1) have "g' = ex_empty_passed" by simp
  then have "current_player_idx (state g') = 0" "turns_remaining (state g') = 1"
    by (simp_all add: ex_empty_passed_def)
  then show ?thesis using a b g by blast
qed

section \<open>C6: setting up\<close>

text \<open>
  C6 (as the code has it). \<^verbatim>\<open>Game.__init__\<close> does not check \<^verbatim>\<open>num_players\<close>. For every
  \<^verbatim>\<open>num_players\<close> up to 11, also 0 and 1, setup returns a game with that many players;
  each hand is four cards of the base deck, which holds neither an exploding kitten nor a
  Defuse, followed by one Defuse; and the deck holds exactly \<open>num_players - 1\<close> exploding
  kittens (none for no player).
\<close>

theorem setup_deals:
  assumes "n \<le> 11"
  shows "\<exists>g r'. new_game n r = Inr (g, r')
           \<and> num_players g = n \<and> length (players (state g)) = n
           \<and> (\<forall>p \<in> set (players (state g)).
                 \<exists>cs. hand p = cs @ [DEFUSE] \<and> length cs = 4 \<and> set cs \<subseteq> set base_deck)
           \<and> EXPLODING_KITTEN \<notin> set base_deck \<and> DEFUSE \<notin> set base_deck
           \<and> kittens_in_deck (state g) = n - 1"
proof -
  from new_game_returns [OF assms, of r] obtain g r' where
    g: "new_game n r = Inr (g, r')" "num_players g = n"
       "list_all2 (dealt base_deck) (fresh_players n) (players (state g))"
       "kittens_in_deck (state g) = n - 1" by blast
  from g(3) have l: "length (players (state g)) = n"
    by (metis list_all2_lengthD fresh_players_simps(1))
  have "\<exists>cs. hand p = cs @ [DEFUSE] \<and> length cs = 4 \<and> set cs \<subseteq> set base_deck"
    if "p \<in> set (players (state g))" for p
  proof -
    from that obtain j where j: "j < n" "players (state g) ! j = p"
      using l by (metis in_set_conv_nth)
    then have "dealt base_deck (fresh_players n ! j) p"
      using g(3) l by (metis list_all2_nthD2)
    moreover have "hand (fresh_players n ! j) = []" using j(1) by (simp add: fresh_players_def)
    ultimately show ?thesis by (auto simp: dealt_def)
  qed
  then show ?thesis using g(1,2,4) l base_deck_set by blast
qed

theorem setup_deals_witness:
  "(2::nat) \<le> 11
   \<and> (\<exists>g r'. new_game 2 [] = Inr (g, r') \<and> length (players (state g)) = 2
         \<and> (\<forall>p \<in> set (players (state g)). length (hand p) = 5 \<and> last (hand p) = DEFUSE)
         \<and> kittens_in_deck (state g) = 1)"
proof -
  have a: "(2::nat) \<le> 11" by simp
  from setup_deals [OF a, of "[]"] obtain g r' where
    g: "new_game 2 [] = Inr (g, r')" "length (players (state g)) = 2"
       "\<forall>p \<in> set (players (state g)).
           \<exists>cs. hand p = cs @ [DEFUSE] \<and> length cs = 4 \<and> set cs \<subseteq> set base_deck"
       "kittens_in_deck (state g) = 2 - 1" by blast
  from g(3) have "\<forall>p \<in> set (players (state g)). length (hand p) = 5 \<and> last (hand p) = DEFUSE"
    by fastforce
  then show ?thesis using g(1,2,4) by auto
qed

theorem setup_validation_counterexample:
  "\<not> isl (new_game 1 []) \<and> \<not> isl (new_game 0 []) \<and> new_game 12 [] = Inl IndexError"
proof -
  from new_game_returns [of 1 "[]"] have "\<not> isl (new_game 1 [])" by auto
  moreover from new_game_returns [of 0 "[]"] have "\<not> isl (new_game 0 [])" by auto
  ultimately show ?thesis using new_game_fails [of 12 "[]"] by simp
qed

section \<open>C1: the number of cards\<close>

text \<open>
  C1 (as the code has it). In every game reached from a new game by legal actions, under
  any random source, the cards of the deck, of all hands (of alive and of eliminated
  players) and of the discard pile are as many as right after setup, which is
  \<open>48 + n + (n - 1)\<close> for \<open>n\<close> players; and every call of \<^verbatim>\<open>execute_action\<close> with a legal
  action that returns leaves that number as it is. A call with an action outside
  \<^verbatim>\<open>get_legal_actions\<close> can change it.
\<close>

theorem card_conservation:
  assumes "new_game n r0 = Inr (g0, r1)" and "reachable g0 g"
  shows "total_cards g = total_cards g0 \<and> total_cards g0 = 48 + n + (n - 1)
       \<and> (\<forall>a r g' r'. is_legal g a \<longrightarrow> execute_action a g r = Some (Inr (g', r'))
              \<longrightarrow> total_cards g' = total_cards g)"
  using reachable_total [OF assms(2)] new_game_total [OF assms(1)] execute_action_total
  by blast

theorem card_conservation_witness:
  "\<exists>g0 r1 g r'. new_game 2 [] = Inr (g0, r1)
     \<and> execute_action Pass g0 [] = Some (Inr (g, r')) \<and> reachable g0 g
     \<and> total_cards g = 51 \<and> total_cards g0 = 51"
proof -
  from new_game_returns [of 2 "[]"] obtain g0 r1 where n: "new_game 2 [] = Inr (g0, r1)" by auto
  have inv: "game_inv g0" using new_game_inv [OF n] by simp
  then have l: "is_legal g0 Pass" by (simp add: pass_is_legal game_inv_def)
  from execute_action_returns [OF inv l, of "[]"] obtain g r' where
    e: "execute_action Pass g0 [] = Some (Inr (g, r'))" by blast
  have r: "reachable g0 g" using reachable.step [OF reachable.start l e] .
  from card_conservation [OF n r] have "total_cards g = 51" "total_cards g0 = 51" by simp_all
  then show ?thesis using n e r by blast
qed

theorem illegal_action_changes_count:
  "new_game 2 [] = Inr (ex_start2, [])
   \<and> total_cards ex_start2 = 51
   \<and> map_option (map_sum (\<lambda>e. e) (\<lambda>(g, r). total_cards g))
         (execute_action (InsertExplodingKitten 0) ex_start2 []) = Some (Inr 52)
   \<and> map_option (map_sum (\<lambda>e. e) (\<lambda>(g, r). total_cards g))
         (execute_action (PlayCard SKIP None None) ex_start2 []) = Some (Inr 52)"
  by code_simp

section \<open>C7: the known top of the deck\<close>

lemma shuffle_deck_clears: "top_three_known_by (fst (shuffle_deck s r)) = None"
  by (simp add: shuffle_deck_def split: prod.splits)

text \<open>
  C7 at the failing input. A defused kitten that goes back on top of the deck, or to the
  bottom, leaves \<open>top_three_known_by\<close> set; after the insertion at the bottom the top
  three cards are no longer the ones player 0 has seen. So does an
  \<^verbatim>\<open>InsertExplodingKitten\<close> at the top.
\<close>

theorem known_top_survives_insertion:
  "execute_action Pass ex_known [3] = Some (Inr (ex_known_top, []))
   \<and> top_three_known_by (state ex_known_top) = Some 0
   \<and> execute_action Pass ex_known [0] = Some (Inr (ex_known_bottom, []))
   \<and> top_three_known_by (state ex_known_bottom) = Some 0
   \<and> peek_top (state ex_known) 3 = [ATTACK, NOPE, EXPLODING_KITTEN]
   \<and> peek_top (state ex_known_bottom) 3 = [SKIP, ATTACK, NOPE]
   \<and> map_option (map_sum (\<lambda>e. e) (\<lambda>(g, r). (deck (state g), top_three_known_by (state g))))
        (execute_action (InsertExplodingKitten 4) ex_known [])
       = Some (Inr ([SKIP, ATTACK, NOPE, EXPLODING_KITTEN, EXPLODING_KITTEN], Some 0))"
  by code_simp

section \<open>No exploding kitten is ever in a hand\<close>

lemma clean_update:
  "clean_hands ps \<Longrightarrow> EXPLODING_KITTEN \<notin> set (hand p') \<Longrightarrow> clean_hands (ps[i := p'])"
  unfolding clean_hands_def using set_update_subset_insert [of ps i p'] by auto

lemma clean_nth: "clean_hands ps \<Longrightarrow> i < length ps \<Longrightarrow> EXPLODING_KITTEN \<notin> set (hand (ps ! i))"
  unfolding clean_hands_def by simp

lemma steal_clean:
  assumes "steal i t s r = Inr (s', r')" "i < length (players s)" "clean_hands (players s)"
  shows "clean_hands (players s')"
proof (cases "hand (players s ! t) = []")
  case True
  then have "s' = s" using assms(1) by (auto simp: steal_def split: if_splits)
  then show ?thesis using assms(3) by simp
next
  case False
  let ?ps = "players s"
  from assms(1) False have t: "t < length ?ps" by (auto simp: steal_def split: if_splits)
  obtain k r1 where k: "randint0 (length (hand (?ps ! t)) - 1) r = (k, r1)"
    by (cases "randint0 (length (hand (?ps ! t)) - 1) r")
  have kl: "k < length (hand (?ps ! t))"
    using randint0_le [of "length (hand (?ps ! t)) - 1" r] k False
    by (cases "hand (?ps ! t)") auto
  let ?h = "hand (?ps ! t)"
  let ?p1 = "(?ps ! t)\<lparr>hand := take k ?h @ drop (Suc k) ?h\<rparr>"
  let ?ps1 = "?ps[t := ?p1]"
  let ?p2 = "(?ps1 ! i)\<lparr>hand := hand (?ps1 ! i) @ [?h ! k]\<rparr>"
  have s': "s' = s\<lparr>players := ?ps1[i := ?p2]\<rparr>"
    using assms(1) False t k by (simp add: steal_def upd_player_def Let_def)
  have ht: "EXPLODING_KITTEN \<notin> set ?h" using clean_nth [OF assms(3) t] .
  have "set (take k ?h @ drop (Suc k) ?h) \<subseteq> set ?h"
    using set_take_subset [of k ?h] set_drop_subset [of "Suc k" ?h] by auto
  then have c1: "clean_hands ?ps1" using ht by (intro clean_update [OF assms(3)]) auto
  have "?h ! k \<noteq> EXPLODING_KITTEN" using ht kl by (metis nth_mem)
  moreover have "EXPLODING_KITTEN \<notin> set (hand (?ps1 ! i))"
    using clean_nth [OF c1] assms(2) by simp
  ultimately have "clean_hands (?ps1[i := ?p2])" by (intro clean_update [OF c1]) auto
  then show ?thesis using s' by simp
qed

lemma draw_resolve_clean:
  assumes "clean_hands (players (state g))"
  shows "clean_hands (players (state (fst (draw_resolve g r))))"
proof -
  let ?ps = "players (state g)"
  let ?i = "current_player_idx (state g)"
  have a: "clean_hands (?ps[?i := (?ps ! ?i)\<lparr>hand := hand (?ps ! ?i) @ [c]\<rparr>])"
    if "c \<noteq> EXPLODING_KITTEN" for c
  proof (cases "?i < length ?ps")
    case True
    then show ?thesis using clean_nth [OF assms True] that by (intro clean_update [OF assms]) auto
  next
    case False
    then show ?thesis using assms by (simp add: list_update_beyond not_less)
  qed
  have b: "clean_hands (?ps[?i := (?ps ! ?i)\<lparr>hand := remove1 DEFUSE (hand (?ps ! ?i))\<rparr>])"
  proof (cases "?i < length ?ps")
    case True
    then show ?thesis using clean_nth [OF assms True] notin_set_remove1
      by (intro clean_update [OF assms]) auto
  next
    case False
    then show ?thesis using assms by (simp add: list_update_beyond not_less)
  qed
  have c: "clean_hands (?ps[?i := (?ps ! ?i)\<lparr>alive := False\<rparr>])"
  proof (cases "?i < length ?ps")
    case True
    then show ?thesis using clean_nth [OF assms True] by (intro clean_update [OF assms]) auto
  next
    case False
    then show ?thesis using assms by (simp add: list_update_beyond not_less)
  qed
  show ?thesis using assms a b c
    by (simp add: draw_resolve_def Let_def remove_card_eq split: prod.splits)
qed

lemma finish_set_turn_players [simp]:
  "players (state (finish p a (set_turn k t g))) = players (state g)"
  by simp

lemma apply_action_clean:
  assumes "is_legal g a" "clean_hands (players (state g))"
    and "apply_action (current_player_idx (state g)) a g r = Some (Inr (g', r'))"
  shows "clean_hands (players (state g'))"
proof -
  let ?i = "current_player_idx (state g)"
  let ?ps = "players (state g)"
  let ?h = "hand (?ps ! ?i)"
  from is_legal_idx [OF assms(1)] have i: "?i < length ?ps" .
  have hi: "EXPLODING_KITTEN \<notin> set ?h" using clean_nth [OF assms(2) i] .
  have rm: "clean_hands (?ps[?i := (?ps ! ?i)\<lparr>hand := remove1 ct ?h\<rparr>])" for ct
    using hi notin_set_remove1 by (intro clean_update [OF assms(2)]) auto
  from is_legal_cases [OF assms(1)]
  consider (pass) "a = Pass"
    | (card) ct tgt where "a = PlayCard ct tgt None" "ct \<in> set ?h"
    | (pair) cat t where "a = PlayCatPair cat t"
    by blast
  then show ?thesis
  proof cases
    case pass
    obtain g1 r1 where g1: "draw_resolve g r = (g1, r1)" by (cases "draw_resolve g r")
    with assms(3) pass i have "end_turn g1 = Some (Inr g')"
      by (simp add: do_draw_factor with_rng_Inr)
    from end_turn_form [OF this] obtain k t where "g' = set_turn k t g1" by blast
    then show ?thesis using draw_resolve_clean [OF assms(2), of r] g1 by simp
  next
    case card
    let ?g1 = "card_played ct g"
    have c1: "clean_hands (players (state ?g1))"
      using rm [of ct] by (simp add: card_played_def Let_def)
    have e: "play_effect ?i ct tgt ?g1 r = Some (Inr (g', r'))"
      using assms(3) card apply_play_card by simp
    consider (attack) "ct = ATTACK" | (skip) "ct = SKIP" | (shuffle) "ct = SHUFFLE"
      | (future) "ct = SEE_THE_FUTURE" | (favor) "ct = FAVOR"
      | (other) "ct \<notin> {ATTACK, SKIP, SHUFFLE, SEE_THE_FUTURE, FAVOR}" by blast
    then show ?thesis
    proof cases
      case attack
      with e have "do_attack ?g1 = Some (Inr g')" by (simp add: play_effect_def with_rng_Inr)
      from do_attack_form [OF this] obtain k where "g' = set_turn k 2 ?g1" by blast
      then show ?thesis using c1 by simp
    next
      case skip
      with e have "end_turn ?g1 = Some (Inr g')"
        by (simp add: play_effect_def with_rng_Inr do_skip_def)
      from end_turn_form [OF this] obtain k t where "g' = set_turn k t ?g1" by blast
      then show ?thesis using c1 by simp
    next
      case shuffle
      obtain s1 r1 where s1: "shuffle_deck (state ?g1) r = (s1, r1)"
        by (cases "shuffle_deck (state ?g1) r")
      with e shuffle have "g' = ?g1\<lparr>state := s1\<rparr>" by (simp add: play_effect_def)
      then show ?thesis using shuffle_deck_total [OF s1] c1 by simp
    next
      case future
      with e show ?thesis using c1 by (auto simp: play_effect_def)
    next
      case favor
      with e obtain t where t: "tgt = Some t" "steal_game ?i t ?g1 r = Some (Inr (g', r'))"
        by (cases tgt) (auto simp: play_effect_def)
      then obtain s' where s': "steal ?i t (state ?g1) r = Inr (s', r')" "g' = ?g1\<lparr>state := s'\<rparr>"
        by (auto simp: steal_game_def split: sum.splits)
      have "?i < length (players (state ?g1))" using i by simp
      from steal_clean [OF s'(1) this c1] s'(2) show ?thesis by simp
    next
      case other
      with e show ?thesis using c1 by (simp add: play_effect_def)
    qed
  next
    case pair
    let ?s3 = "(state g)\<lparr>players := ?ps[?i := (?ps ! ?i)\<lparr>hand := remove1 cat (remove1 cat ?h)\<rparr>],
                         discard := discard (state g) @ [Some cat, Some cat]\<rparr>"
    have e: "steal_game ?i t (g\<lparr>state := ?s3\<rparr>) r = Some (Inr (g', r'))"
      using assms(3) pair i by (simp add: remove_card_eq Let_def upd_player_def)
    then obtain s' where s': "steal ?i t ?s3 r = Inr (s', r')" "g' = g\<lparr>state := s'\<rparr>"
      by (auto simp: steal_game_def split: sum.splits)
    have "EXPLODING_KITTEN \<notin> set (remove1 cat (remove1 cat ?h))"
      using hi notin_set_remove1 by metis
    then have c3: "clean_hands (players ?s3)"
      using clean_update [OF assms(2), of "(?ps ! ?i)\<lparr>hand := remove1 cat (remove1 cat ?h)\<rparr>" ?i]
      by simp
    have "?i < length (players ?s3)" using i by simp
    from steal_clean [OF s'(1) this c3] s'(2) show ?thesis by simp
  qed
qed

lemma execute_action_clean:
  assumes "is_legal g a" "clean_hands (players (state g))"
    and "execute_action a g r = Some (Inr (g', r'))"
  shows "clean_hands (players (state g'))"
proof -
  from assms(3) obtain g1 where
    "apply_action (current_player_idx (state g)) a g r = Some (Inr (g1, r'))"
    "g' = finish (pid (players (state g) ! current_player_idx (state g))) a g1"
    by (auto simp: execute_action_def Let_def split: if_splits option.splits sum.splits)
  then show ?thesis using apply_action_clean [OF assms(1,2)] by simp
qed

lemma new_game_clean:
  assumes "new_game n r = Inr (g, r')"
  shows "clean_hands (players (state g))"
proof -
  note f = new_game_facts [OF assms]
  have "EXPLODING_KITTEN \<notin> set (hand p)" if "p \<in> set (players (state g))" for p
  proof -
    from that obtain j where j: "j < length (players (state g))" "players (state g) ! j = p"
      by (metis in_set_conv_nth)
    then have d: "dealt base_deck (fresh_players n ! j) p"
      using f(3) by (metis list_all2_nthD2)
    have "j < n" using j(1) f(3) by (metis list_all2_lengthD fresh_players_simps(1))
    then have "hand (fresh_players n ! j) = []" by (simp add: fresh_players_def)
    with d show ?thesis using base_deck_set(1) by (auto simp: dealt_def)
  qed
  then show ?thesis by (simp add: clean_hands_def)
qed

lemma reachable_clean:
  "reachable g0 g \<Longrightarrow> clean_hands (players (state g0)) \<Longrightarrow> clean_hands (players (state g))"
  by (induction rule: reachable.induct) (auto intro: execute_action_clean)

section \<open>C4: drawing the exploding kitten\<close>

lemma pass_result:
  assumes "game_inv g"
  shows "\<exists>k t. execute_action Pass g r =
           Some (Inr (finish (pid (players (state g) ! current_player_idx (state g))) Pass
                        (set_turn k t (fst (draw_resolve g r))), snd (draw_resolve g r)))"
proof -
  obtain g1 r1 where g1: "draw_resolve g r = (g1, r1)" by (cases "draw_resolve g r")
  have "game_inv g1" using draw_resolve_inv [OF assms, of r] g1 by simp
  from end_turn_returns [OF inv_turn_ready [OF this]] obtain k t where
    "end_turn g1 = Some (Inr (set_turn k t g1))" by blast
  moreover have "current_player_idx (state g) < length (players (state g))"
    using assms by (simp add: game_inv_def)
  ultimately show ?thesis using g1
    by (intro exI [of _ k] exI [of _ t]) (simp add: execute_action_def Let_def do_draw_factor)
qed

lemma draw_kitten_defused:
  assumes "deck (state g) \<noteq> []" "last (deck (state g)) = EXPLODING_KITTEN"
    and "DEFUSE \<in> set (hand (players (state g) ! current_player_idx (state g)))"
  shows "fst (draw_resolve g r) =
      g\<lparr>state := (state g)\<lparr>players := (players (state g))[current_player_idx (state g) :=
                     (players (state g) ! current_player_idx (state g))
                       \<lparr>hand := remove1 DEFUSE
                          (hand (players (state g) ! current_player_idx (state g)))\<rparr>],
               discard := discard (state g) @ [Some DEFUSE],
               deck := insert_card EXPLODING_KITTEN
                         (fst (randint0 (length (butlast (deck (state g)))) r))
                         (butlast (deck (state g)))\<rparr>\<rparr>"
  using assms
  by (simp add: draw_resolve_def Let_def has_card_iff remove_card_eq upd_player_def
      split: prod.splits)

lemma draw_kitten_exploded:
  assumes "deck (state g) \<noteq> []" "last (deck (state g)) = EXPLODING_KITTEN"
    and "DEFUSE \<notin> set (hand (players (state g) ! current_player_idx (state g)))"
  shows "fst (draw_resolve g r) =
      g\<lparr>state := (state g)\<lparr>players := (players (state g))[current_player_idx (state g) :=
                     (players (state g) ! current_player_idx (state g))\<lparr>alive := False\<rparr>],
               deck := butlast (deck (state g)),
               discard := discard (state g) @ [Some EXPLODING_KITTEN]\<rparr>\<rparr>"
  using assms
  by (simp add: draw_resolve_def Let_def has_card_iff upd_player_def)

lemma kittens_in_hands_alt:
  "sum_list (map (\<lambda>p. length (filter (\<lambda>c. c = EXPLODING_KITTEN) (hand p))) (filter alive ps))
     = sum_list (map (\<lambda>p. if alive p then length (filter (\<lambda>c. c = EXPLODING_KITTEN) (hand p))
                            else 0) ps)"
  by (induction ps) auto

text \<open>
  The draw of the kitten by a current player who is alive and whose hand holds no
  exploding kitten, in a game that satisfies the engine's invariant: the call returns; with
  a Defuse in the hand the number of cards is as before, the first Defuse of the hand is on
  the discard pile, the kitten is back in the deck at a position between 0 and the length
  of the deck, and the player is alive; without one the player is not alive, the kitten is
  on the discard pile, and the exploding kittens in the deck and the hands of alive players
  are one fewer.
\<close>

lemma hazard_draw_alive:
  assumes "game_inv g"
    and "deck (state g) \<noteq> []" and "last (deck (state g)) = EXPLODING_KITTEN"
    and "EXPLODING_KITTEN \<notin> set (hand (players (state g) ! current_player_idx (state g)))"
    and "alive (players (state g) ! current_player_idx (state g))"
  shows "\<exists>g' r'. execute_action Pass g r = Some (Inr (g', r')) \<and>
     (if has_card (players (state g) ! current_player_idx (state g)) DEFUSE
      then total_cards g' = total_cards g
         \<and> alive (players (state g') ! current_player_idx (state g))
         \<and> hand (players (state g') ! current_player_idx (state g))
             = remove1 DEFUSE (hand (players (state g) ! current_player_idx (state g)))
         \<and> discard (state g') = discard (state g) @ [Some DEFUSE]
         \<and> (\<exists>pos \<le> length (butlast (deck (state g))).
               deck (state g') = insert_card EXPLODING_KITTEN pos (butlast (deck (state g))))
         \<and> kittens_in_circulation (state g') = kittens_in_circulation (state g)
      else \<not> alive (players (state g') ! current_player_idx (state g))
         \<and> discard (state g') = discard (state g) @ [Some EXPLODING_KITTEN]
         \<and> deck (state g') = butlast (deck (state g))
         \<and> kittens_in_circulation (state g') + 1 = kittens_in_circulation (state g))"
proof -
  let ?s = "state g"
  let ?i = "current_player_idx ?s"
  let ?ps = "players ?s"
  let ?h = "hand (?ps ! ?i)"
  let ?K = "\<lambda>c. c = EXPLODING_KITTEN"
  let ?f = "\<lambda>p. if alive p then length (filter ?K (hand p)) else 0"
  from assms(1) have i: "?i < length ?ps" by (simp add: game_inv_def)
  from pass_result [OF assms(1), of r] obtain k t where
    e: "execute_action Pass g r =
          Some (Inr (finish (pid (?ps ! ?i)) Pass (set_turn k t (fst (draw_resolve g r))),
                     snd (draw_resolve g r)))" by blast
  let ?g' = "finish (pid (?ps ! ?i)) Pass (set_turn k t (fst (draw_resolve g r)))"
  have tot: "total_cards ?g' = total_cards g" using draw_resolve_total [OF i, of r] by simp
  have cnt: "length (filter ?K (deck ?s)) = length (filter ?K (butlast (deck ?s))) + 1"
    using filter_butlast_count [OF assms(2), of ?K] assms(3) by simp
  have h0: "?f (?ps ! ?i) = 0" using assms(4) by (auto simp: filter_empty_conv)
  show ?thesis
  proof (cases "DEFUSE \<in> set ?h")
    case True
    note d = draw_kitten_defused [OF assms(2,3) True, of r]
    let ?p' = "(?ps ! ?i)\<lparr>hand := remove1 DEFUSE ?h\<rparr>"
    have "EXPLODING_KITTEN \<notin> set (remove1 DEFUSE ?h)"
      using assms(4) notin_set_remove1 by metis
    then have "?f ?p' = 0" by (auto simp: filter_empty_conv)
    then have "sum_list (map ?f (?ps[?i := ?p'])) = sum_list (map ?f ?ps)"
      using sum_list_update_add [OF i, of ?f ?p'] h0 by linarith
    then have circ: "kittens_in_circulation (state ?g') = kittens_in_circulation ?s"
      using cnt
      by (simp add: d kittens_in_circulation_def kittens_in_hands_alt alive_players_def
          kittens_in_deck_def insert_card_count)
    have pos: "fst (randint0 (length (butlast (deck ?s))) r) \<le> length (butlast (deck ?s))"
      by (rule randint0_le)
    have "total_cards ?g' = total_cards g
         \<and> alive (players (state ?g') ! ?i)
         \<and> hand (players (state ?g') ! ?i) = remove1 DEFUSE ?h
         \<and> discard (state ?g') = discard ?s @ [Some DEFUSE]
         \<and> (\<exists>pos \<le> length (butlast (deck ?s)).
               deck (state ?g') = insert_card EXPLODING_KITTEN pos (butlast (deck ?s)))
         \<and> kittens_in_circulation (state ?g') = kittens_in_circulation ?s"
      using tot circ pos i assms(5) by (auto simp: d)
    then show ?thesis using e True by (auto simp: has_card_iff)
  next
    case False
    note d = draw_kitten_exploded [OF assms(2,3) False, of r]
    let ?p' = "(?ps ! ?i)\<lparr>alive := False\<rparr>"
    have "?f ?p' = 0" by simp
    then have "sum_list (map ?f (?ps[?i := ?p'])) = sum_list (map ?f ?ps)"
      using sum_list_update_add [OF i, of ?f ?p'] h0 by linarith
    then have circ: "kittens_in_circulation (state ?g') + 1 = kittens_in_circulation ?s"
      using cnt
      by (simp add: d kittens_in_circulation_def kittens_in_hands_alt alive_players_def
          kittens_in_deck_def)
    have "\<not> alive (players (state ?g') ! ?i)
         \<and> discard (state ?g') = discard ?s @ [Some EXPLODING_KITTEN]
         \<and> deck (state ?g') = butlast (deck ?s)
         \<and> kittens_in_circulation (state ?g') + 1 = kittens_in_circulation ?s"
      using circ i by (simp add: d)
    then show ?thesis using e False by (auto simp: has_card_iff)
  qed
qed

lemma play_legal_reachable: "play_legal as g = Some g' \<Longrightarrow> reachable g0 g \<Longrightarrow> reachable g0 g'"
proof (induction as arbitrary: g)
  case Nil
  then show ?case by simp
next
  case (Cons x as)
  obtain a r where x: "x = (a, r)" by (cases x)
  from Cons.prems(1) x obtain g1 r1 where
    s: "is_legal g a" "execute_action a g r = Some (Inr (g1, r1))" "play_legal as g1 = Some g'"
    by (auto split: if_splits option.splits sum.splits)
  from reachable.step [OF Cons.prems(2) s(1,2)] Cons.IH [OF s(3)] show ?case by blast
qed

text \<open>
  C4 at the failing inputs. Six legal actions after \<^verbatim>\<open>Game(3)\<close> leave player 1 not alive
  and still the current player, because \<^verbatim>\<open>_end_turn\<close> keeps a player who explodes on the
  first of two turns; the player holds a stolen Defuse and an exploding kitten is on top.
  Pass then discards the Defuse and puts the kitten back, and the player is still not
  alive. In a determinization of \<open>ex_round\<close> for player 0, player 1 holds an exploding
  kitten and no Defuse; after the Attack of player 0, player 1 draws the kitten on top and
  the kittens in circulation go from 2 to 0.
\<close>

theorem hazard_draw_failures:
  "new_game 3 [] = Inr (ex_start3, [])
   \<and> play_legal [(Pass, []), (Pass, [36]), (Pass, [36])] ex_start3 = Some ex_round
   \<and> play_legal [(PlayCard ATTACK None None, []), (Pass, []),
                   (PlayCatPair CAT_BEARD_CAT 0, [3])] ex_round = Some ex_dead_turn
   \<and> current_player_idx (state ex_dead_turn) = 1
   \<and> \<not> alive (players (state ex_dead_turn) ! 1)
   \<and> has_card (players (state ex_dead_turn) ! 1) DEFUSE
   \<and> last (deck (state ex_dead_turn)) = EXPLODING_KITTEN
   \<and> execute_action Pass ex_dead_turn [] = Some (Inr (ex_dead_defused, []))
   \<and> \<not> alive (players (state ex_dead_defused) ! 1)
   \<and> map_option (\<lambda>d. hand (players (state d) ! 1))
         (determinized ex_round 0 [43, 35, 0, 0, 0, 0, 0, 0, 35])
       = Some [EXPLODING_KITTEN, CAT_CATTERMELON, CAT_RAINBOW_CAT, ATTACK]
   \<and> Option.bind (determinized ex_round 0 [43, 35, 0, 0, 0, 0, 0, 0, 35])
         (kittens_after [(PlayCard ATTACK None None, [])]) = Some 2
   \<and> Option.bind (determinized ex_round 0 [43, 35, 0, 0, 0, 0, 0, 0, 35])
         (kittens_after [(PlayCard ATTACK None None, []), (Pass, [])]) = Some 0"
  by code_simp

section \<open>C9: playouts\<close>

lemma legal_actions_of_inv:
  assumes "play_inv g"
  shows "\<exists>legal. get_legal_actions g = Inr legal \<and> legal \<noteq> [] \<and> (\<forall>a \<in> set legal. is_legal g a)"
proof -
  have "current_player_idx (state g) < length (players (state g))"
    using assms by (simp add: play_inv_def)
  then obtain legal where l: "get_legal_actions g = Inr (Pass # legal)"
    by (simp add: get_legal_actions_def Let_def)
  then show ?thesis by (simp add: is_legal_def)
qed

lemma random_playout_loop_returns:
  assumes "play_inv g" "moves \<le> max_moves"
  shows "\<exists>g' m r'. random_playout_loop max_moves moves g r = Some (Inr (g', m, r'))
           \<and> moves \<le> m \<and> m \<le> max_moves \<and> play_inv g'"
  using assms
proof (induction "max_moves - moves" arbitrary: moves g r)
  case 0
  then have "\<not> moves < max_moves" by simp
  then have "random_playout_loop max_moves moves g r = Some (Inr (g, moves, r))" by simp
  then show ?case using 0 by simp
next
  case (Suc d)
  show ?case
  proof (cases "is_over g")
    case True
    then have "random_playout_loop max_moves moves g r = Some (Inr (g, moves, r))" by simp
    then show ?thesis using Suc.prems by simp
  next
    case False
    from Suc.hyps(2) have lt: "moves < max_moves" by simp
    from legal_actions_of_inv [OF Suc.prems(1)] obtain legal where
      l: "get_legal_actions g = Inr legal" "legal \<noteq> []" "\<forall>a \<in> set legal. is_legal g a" by blast
    obtain k r1 where k: "randbelow (length legal) r = (k, r1)"
      by (cases "randbelow (length legal) r")
    have "k < length legal" using randbelow_less [of "length legal" r] k l(2) by simp
    then have "is_legal g (legal ! k)" using l(3) by simp
    from execute_action_play [OF Suc.prems(1) legal_replayable [OF Suc.prems(1) this], of r1]
    obtain g1 r2 where
      e: "execute_action (legal ! k) g r1 = Some (Inr (g1, r2))" "play_inv g1" by blast
    have step: "random_playout_loop max_moves moves g r
                  = random_playout_loop max_moves (moves + 1) g1 r2"
      using False lt l(1,2) k e(1) by (subst random_playout_loop.simps) simp
    have "d = max_moves - (moves + 1)" using Suc.hyps(2) by simp
    from Suc.hyps(1) [OF this e(2), of r2] lt obtain g' m r' where
      "random_playout_loop max_moves (moves + 1) g1 r2 = Some (Inr (g', m, r'))"
      "moves + 1 \<le> m" "m \<le> max_moves" "play_inv g'" by auto
    then show ?thesis using step by auto
  qed
qed

lemma try_random_mem: "try_random P xs r = (Some a, r') \<Longrightarrow> a \<in> set xs"
  by (induction xs arbitrary: r) (auto split: if_splits prod.splits)

lemma find_mem: "find P xs = Some a \<Longrightarrow> a \<in> set xs"
  by (induction xs) (auto split: if_splits)

lemma random_choice_returns:
  "legal \<noteq> [] \<Longrightarrow> \<exists>a r1. random_choice legal r = Inr (a, r1) \<and> a \<in> set legal"
proof -
  assume ne: "legal \<noteq> []"
  obtain k r4 where k: "randbelow (length legal) r = (k, r4)"
    by (cases "randbelow (length legal) r")
  have "k < length legal" using randbelow_less [of "length legal" r] k ne by simp
  then show ?thesis using k ne by (simp add: random_choice_def)
qed

lemma random_blocks_returns:
  assumes "legal \<noteq> []"
  shows "\<exists>a r1. random_blocks g legal r = Inr (a, r1) \<and> a \<in> set legal"
proof -
  let ?s = "state g"
  let ?player = "players ?s ! current_player_idx ?s"
  let ?t1 = "if top_three_known_by ?s \<noteq> Some (pid ?player)
             then try_random (is_play_of [SEE_THE_FUTURE]) legal r else (None, r)"
  obtain o1 r1 where t1: "?t1 = (o1, r1)" by (cases ?t1)
  obtain o2 r2 where t2: "try_random (is_play_of [ATTACK]) legal r1 = (o2, r2)"
    by (cases "try_random (is_play_of [ATTACK]) legal r1")
  obtain o3 r3 where t3: "try_random is_cat_pair legal r2 = (o3, r3)"
    by (cases "try_random is_cat_pair legal r2")
  have m1: "a \<in> set legal" if "o1 = Some a" for a
    using that t1 try_random_mem by (auto split: if_splits)
  have m2: "a \<in> set legal" if "o2 = Some a" for a
    using that t2 try_random_mem by auto
  have m3: "a \<in> set legal" if "o3 = Some a" for a
    using that t3 try_random_mem by auto
  show ?thesis
  proof (cases o1)
    case (Some a)
    then show ?thesis using t1 m1 by (simp add: random_blocks_def Let_def)
  next
    case n1: None
    show ?thesis
    proof (cases o2)
      case (Some a)
      then show ?thesis using t1 n1 t2 m2 by (simp add: random_blocks_def Let_def)
    next
      case n2: None
      show ?thesis
      proof (cases o3)
        case (Some a)
        then show ?thesis using t1 n1 t2 n2 t3 m3 by (simp add: random_blocks_def Let_def)
      next
        case None
        then show ?thesis using t1 n1 t2 n2 t3 random_choice_returns [OF assms, of r3]
          by (simp add: random_blocks_def Let_def)
      qed
    qed
  qed
qed

lemma select_heuristic_action_returns:
  assumes "current_player_idx (state g) < length (players (state g))" "legal \<noteq> []"
  shows "\<exists>a r1. select_heuristic_action g legal r = Inr (a, r1) \<and> a \<in> set legal"
proof (cases "urgent_action g legal")
  case (Some a)
  then have "a \<in> set legal" using find_mem by (auto simp: urgent_action_def Let_def split: if_splits)
  then show ?thesis using Some assms(1) by (simp add: select_heuristic_action_def)
next
  case u: None
  show ?thesis
  proof (cases "escape_action g legal")
    case (Some a)
    then have "a \<in> set legal"
      using find_mem by (auto simp: escape_action_def Let_def split: if_splits)
    then show ?thesis using Some u assms(1) by (simp add: select_heuristic_action_def)
  next
    case None
    then show ?thesis using u assms(1) random_blocks_returns [OF assms(2), of g r]
      by (simp add: select_heuristic_action_def)
  qed
qed

lemma heuristic_playout_loop_returns:
  assumes "play_inv g" "moves \<le> max_moves"
  shows "\<exists>g' m r'. heuristic_playout_loop max_moves moves g r = Some (Inr (g', m, r'))
           \<and> moves \<le> m \<and> m \<le> max_moves \<and> play_inv g'"
  using assms
proof (induction "max_moves - moves" arbitrary: moves g r)
  case 0
  then have "\<not> moves < max_moves" by simp
  then have "heuristic_playout_loop max_moves moves g r = Some (Inr (g, moves, r))" by simp
  then show ?case using 0 by simp
next
  case (Suc d)
  show ?case
  proof (cases "is_over g")
    case True
    then have "heuristic_playout_loop max_moves moves g r = Some (Inr (g, moves, r))" by simp
    then show ?thesis using Suc.prems by simp
  next
    case False
    from Suc.hyps(2) have lt: "moves < max_moves" by simp
    from legal_actions_of_inv [OF Suc.prems(1)] obtain legal where
      l: "get_legal_actions g = Inr legal" "legal \<noteq> []" "\<forall>a \<in> set legal. is_legal g a" by blast
    have i: "current_player_idx (state g) < length (players (state g))"
      using Suc.prems(1) by (simp add: play_inv_def)
    from select_heuristic_action_returns [OF i l(2), of r] obtain a r1 where
      a: "select_heuristic_action g legal r = Inr (a, r1)" "a \<in> set legal" by blast
    then have "is_legal g a" using l(3) by simp
    from execute_action_play [OF Suc.prems(1) legal_replayable [OF Suc.prems(1) this], of r1]
    obtain g1 r2 where
      e: "execute_action a g r1 = Some (Inr (g1, r2))" "play_inv g1" by blast
    have step: "heuristic_playout_loop max_moves moves g r
                  = heuristic_playout_loop max_moves (moves + 1) g1 r2"
      using False lt l(1,2) a(1) e(1) by (subst heuristic_playout_loop.simps) simp
    have "d = max_moves - (moves + 1)" using Suc.hyps(2) by simp
    from Suc.hyps(1) [OF this e(2), of r2] lt obtain g' m r' where
      "heuristic_playout_loop max_moves (moves + 1) g1 r2 = Some (Inr (g', m, r'))"
      "moves + 1 \<le> m" "m \<le> max_moves" "play_inv g'" by auto
    then show ?thesis using step by auto
  qed
qed

text \<open>
  C9 (as the code has it). From every game in which \<^verbatim>\<open>num_players\<close> is the number of
  players, the current index is in range, the player at index \<open>i\<close> has id \<open>i\<close>, the deck
  holds fewer exploding kittens than there are alive players and a game that is not over
  has no winner, both playouts return, for every cap and every random source: they
  neither raise nor loop, they execute at most \<open>max_moves\<close> actions, and when the game
  they stop at is not over the value returned is \<^verbatim>\<open>None\<close>.
\<close>

theorem playouts_bounded:
  assumes "play_inv g"
  shows "(\<exists>w m g' r'. simulate_random_playout g max_moves r = Some (Inr (w, m, g', r'))
            \<and> m \<le> max_moves \<and> (\<not> is_over g' \<longrightarrow> w = None))
       \<and> (\<exists>w m g' r'. simulate_with_heuristics g player_id max_moves r = Some (Inr (w, m, g', r'))
            \<and> m \<le> max_moves \<and> (\<not> is_over g' \<longrightarrow> w = None))"
proof -
  have w: "\<not> is_over g' \<longrightarrow> get_winner g' = None" if "play_inv g'" for g'
    using that by (auto simp: play_inv_def is_over_def get_winner_def)
  from random_playout_loop_returns [OF assms, of 0 max_moves r] obtain g1 m1 r1 where
    1: "random_playout_loop max_moves 0 g r = Some (Inr (g1, m1, r1))" "m1 \<le> max_moves"
       "play_inv g1" by auto
  from heuristic_playout_loop_returns [OF assms, of 0 max_moves r] obtain g2 m2 r2 where
    2: "heuristic_playout_loop max_moves 0 g r = Some (Inr (g2, m2, r2))" "m2 \<le> max_moves"
       "play_inv g2" by auto
  have "simulate_random_playout g max_moves r = Some (Inr (get_winner g1, m1, g1, r1))"
    using 1(1) by (simp add: simulate_random_playout_def)
  moreover have "simulate_with_heuristics g player_id max_moves r
                   = Some (Inr (get_winner g2, m2, g2, r2))"
    using 2(1) by (simp add: simulate_with_heuristics_def)
  ultimately show ?thesis using 1(2,3) 2(2,3) w by auto
qed

theorem playouts_bounded_witness:
  "play_inv ex_game
   \<and> simulate_random_playout ex_game 1 [] = Some (Inr (None, 1, ex_defused, []))
   \<and> simulate_with_heuristics ex_game 0 1 [] = Some (Inr (None, 1, ex_defused, []))
   \<and> \<not> is_over ex_defused"
proof -
  have inv: "play_inv ex_game" using ex_game_inv by (rule game_inv_play)
  from playouts_bounded [OF inv, of 1 "[]" 0] obtain w m g' r' w2 m2 g2 r2 where
    1: "simulate_random_playout ex_game 1 [] = Some (Inr (w, m, g', r'))" "m \<le> 1"
       "\<not> is_over g' \<longrightarrow> w = None"
    and 2: "simulate_with_heuristics ex_game 0 1 [] = Some (Inr (w2, m2, g2, r2))" "m2 \<le> 1"
       "\<not> is_over g2 \<longrightarrow> w2 = None"
    by blast
  have 3: "random_playout_loop 1 0 ex_game [] = Some (Inr (ex_defused, 1, []))" by code_simp
  have 4: "heuristic_playout_loop 1 0 ex_game [] = Some (Inr (ex_defused, 1, []))" by code_simp
  have 5: "\<not> is_over ex_defused" by (simp add: is_over_def ex_defused_def)
  from 1(1) 3 have "g' = ex_defused" "m = 1" "r' = []"
    by (simp_all add: simulate_random_playout_def)
  moreover from 2(1) 4 have "g2 = ex_defused" "m2 = 1" "r2 = []"
    by (simp_all add: simulate_with_heuristics_def)
  ultimately show ?thesis using 1 2 5 inv by simp
qed

theorem playout_raises_counterexample:
  "new_game 0 [] = Inr (ex_nobody, [])
   \<and> simulate_random_playout ex_nobody 200 [] = Some (Inl IndexError)
   \<and> simulate_with_heuristics ex_nobody 0 200 [] = Some (Inl IndexError)"
  by code_simp

text \<open>The games the search plays out from satisfy the condition of the theorem: a new game
  with a player, whatever is reached from it by legal actions, and what
  \<^verbatim>\<open>execute_action\<close> returns from such a game for a stored action whose target exists.\<close>

lemma playout_starts:
  "new_game n r0 = Inr (g0, r1) \<Longrightarrow> 1 \<le> n \<Longrightarrow> reachable g0 g \<Longrightarrow> play_inv g"
  "play_inv g \<Longrightarrow> replayable g a \<Longrightarrow> execute_action a g r = Some (Inr (g', r')) \<Longrightarrow> play_inv g'"
proof -
  show "new_game n r0 = Inr (g0, r1) \<Longrightarrow> 1 \<le> n \<Longrightarrow> reachable g0 g \<Longrightarrow> play_inv g"
    using new_game_inv reachable_inv game_inv_play by blast
  show "play_inv g \<Longrightarrow> replayable g a \<Longrightarrow> execute_action a g r = Some (Inr (g', r')) \<Longrightarrow> play_inv g'"
    using execute_action_play [of g a r] by auto
qed

text \<open>An action that was legal in one game of the search is a stored action for every game
  with the same number of players, such as another determinization.\<close>

lemma stored_replayable:
  assumes "play_inv g0" "is_legal g0 a"
    and "length (players (state g)) = length (players (state g0))"
  shows "replayable g a"
  using legal_replayable [OF assms(1,2)] assms(3) by (cases a) (auto split: option.splits)

section \<open>C5: determinization\<close>

lemma take_cards_enough:
  "k \<le> length pool \<Longrightarrow>
   \<exists>h' pool'. take_cards k h pool = (h', pool') \<and> length h' = length h + k
             \<and> length pool' + k = length pool"
proof (induction k arbitrary: h pool)
  case 0
  then show ?case by simp
next
  case (Suc k)
  then have ne: "pool \<noteq> []" by auto
  then have l: "length (butlast pool) + 1 = length pool" by (cases pool) auto
  then have "k \<le> length (butlast pool)" using Suc.prems by simp
  from Suc.IH [OF this, of "h @ [last pool]"] obtain h' pool' where
    "take_cards k (h @ [last pool]) (butlast pool) = (h', pool')"
    "length h' = length (h @ [last pool]) + k" "length pool' + k = length (butlast pool)"
    by blast
  then show ?case using ne l by simp
qed

lemma redistribute_returns:
  assumes "\<forall>p \<in> set qs. pid p < length orig \<and> orig ! pid p = p"
    and "length (concat (map hand (filter (hidden_from obs) qs))) \<le> length pool"
  shows "\<exists>qs' rest. redistribute orig obs (map (strip_hand obs) qs) pool = Inr (qs', rest)
           \<and> list_all2 (same_seat obs) qs qs'"
  using assms
proof (induction qs arbitrary: pool)
  case Nil
  then show ?case by simp
next
  case (Cons p qs)
  have ids: "\<forall>p \<in> set qs. pid p < length orig \<and> orig ! pid p = p" using Cons.prems(1) by simp
  have p: "pid p < length orig" "orig ! pid p = p" using Cons.prems(1) by simp_all
  show ?case
  proof (cases "hidden_from obs p")
    case True
    let ?need = "length (concat (map hand (filter (hidden_from obs) qs)))"
    have le: "length (hand p) + ?need \<le> length pool" using Cons.prems(2) True by simp
    then have "length (hand p) \<le> length pool" by simp
    from take_cards_enough [OF this, of "[]"] obtain h' pool' where
      t: "take_cards (length (hand p)) [] pool = (h', pool')" "length h' = length (hand p)"
         "length pool' + length (hand p) = length pool" by auto
    have "?need \<le> length pool'" using le t(3) by simp
    from Cons.IH [OF ids this] obtain qs' rest where
      r: "redistribute orig obs (map (strip_hand obs) qs) pool' = Inr (qs', rest)"
         "list_all2 (same_seat obs) qs qs'" by blast
    have h: "hidden_from obs (p\<lparr>hand := []\<rparr>)" using True by (simp add: hidden_from_def)
    have "redistribute orig obs (map (strip_hand obs) (p # qs)) pool
            = Inr (p\<lparr>hand := h'\<rparr> # qs', rest)"
      using True h p t(1) r(1) by (simp add: strip_hand_def)
    moreover have "same_seat obs p (p\<lparr>hand := h'\<rparr>)" using True t(2) by (simp add: same_seat_def)
    ultimately show ?thesis using r(2) by simp
  next
    case False
    then have "length (concat (map hand (filter (hidden_from obs) qs))) \<le> length pool"
      using Cons.prems(2) by simp
    from Cons.IH [OF ids this] obtain qs' rest where
      r: "redistribute orig obs (map (strip_hand obs) qs) pool = Inr (qs', rest)"
         "list_all2 (same_seat obs) qs qs'" by blast
    have "redistribute orig obs (map (strip_hand obs) (p # qs)) pool = Inr (p # qs', rest)"
      using False r(1) by (simp add: strip_hand_def)
    moreover have "same_seat obs p p" by (simp add: same_seat_def)
    ultimately show ?thesis using r(2) by simp
  qed
qed

lemma ids_index:
  assumes "map pid ps = [0..<length ps]"
  shows "\<forall>p \<in> set ps. pid p < length ps \<and> ps ! pid p = p"
proof
  fix p assume "p \<in> set ps"
  then obtain j where j: "j < length ps" "ps ! j = p" by (metis in_set_conv_nth)
  then have "pid p = map pid ps ! j" by simp
  also have "\<dots> = j" using assms j(1) by simp
  finally show "pid p < length ps \<and> ps ! pid p = p" using j by simp
qed

lemma determinize_game_returns:
  assumes "game_inv g"
  shows "\<exists>ps' rest r'.
           determinize_game g obs r =
             Inr (g\<lparr>state := (state g)\<lparr>players := ps',
                    deck := rest @ (if top_three_known_by (state g) = Some obs
                                        \<and> 3 \<le> length (deck (state g))
                                    then drop (length (deck (state g)) - 3) (deck (state g))
                                    else [])\<rparr>\<rparr>, r')
           \<and> list_all2 (same_seat obs) (players (state g)) ps'"
proof -
  let ?s = "state g"
  let ?ps = "players ?s"
  let ?keep = "top_three_known_by ?s = Some obs \<and> 3 \<le> length (deck ?s)"
  let ?from_hands = "concat (map hand (filter (hidden_from obs) ?ps))"
  let ?unknown = "?from_hands @ (if ?keep then take (length (deck ?s) - 3) (deck ?s) else deck ?s)"
  from assms have none: "None \<notin> set (discard ?s)" and ids: "map pid ?ps = [0..<length ?ps]"
    by (simp_all add: game_inv_def)
  obtain pool r' where pool: "shuffle ?unknown r = (pool, r')" by (cases "shuffle ?unknown r")
  have "length pool = length ?unknown" using shuffle_length [of ?unknown r] pool by simp
  then have "length ?from_hands \<le> length pool" by simp
  from redistribute_returns [OF ids_index [OF ids] this] obtain ps' rest where
    r: "redistribute ?ps obs (map (strip_hand obs) ?ps) pool = Inr (ps', rest)"
       "list_all2 (same_seat obs) ?ps ps'" by blast
  have m: "map (\<lambda>p. if hidden_from obs p then p\<lparr>hand := []\<rparr> else p) ?ps = map (strip_hand obs) ?ps"
    by (simp add: strip_hand_def)
  have "determinize_game g obs r =
          Inr (g\<lparr>state := ?s\<lparr>players := ps',
                 deck := rest @ (if ?keep then drop (length (deck ?s) - 3) (deck ?s) else [])\<rparr>\<rparr>, r')"
  proof -
    have r1: "redistribute ?ps obs
                (map (\<lambda>p. if hidden_from obs p then p\<lparr>hand := []\<rparr> else p) ?ps) pool
              = Inr (ps', rest)"
      using r(1) by (simp only: m)
    show ?thesis
      using none pool r1 by (simp add: determinize_game_def clone_game_def Let_def)
  qed
  then show ?thesis using r(2) by blast
qed

text \<open>
  C5. In a game that satisfies the engine's invariant, \<^verbatim>\<open>determinize_game\<close> returns for
  every observer and every random source. The player whose id is the observer's is as
  before, so its hand is the true hand; when \<open>top_three_known_by\<close> is the observer and the
  deck has at least three cards, the top three cards of the new deck are the top three of
  the true deck, in the same order; and every alive opponent holds as many cards as in the
  true state.
\<close>

theorem determinize_fidelity:
  assumes "game_inv g"
  shows "\<exists>g' r'. determinize_game g observer_id r = Inr (g', r')
     \<and> length (players (state g')) = length (players (state g))
     \<and> (\<forall>i < length (players (state g)).
           (pid (players (state g) ! i) = observer_id
              \<longrightarrow> players (state g') ! i = players (state g) ! i)
         \<and> (alive (players (state g) ! i) \<and> pid (players (state g) ! i) \<noteq> observer_id
              \<longrightarrow> length (hand (players (state g') ! i)) = length (hand (players (state g) ! i))))
     \<and> (top_three_known_by (state g) = Some observer_id \<and> 3 \<le> length (deck (state g))
          \<longrightarrow> 3 \<le> length (deck (state g'))
            \<and> drop (length (deck (state g')) - 3) (deck (state g'))
                = drop (length (deck (state g)) - 3) (deck (state g)))"
proof -
  let ?ps = "players (state g)"
  let ?d = "deck (state g)"
  from determinize_game_returns [OF assms, of observer_id r] obtain ps' rest r' where
    d: "determinize_game g observer_id r =
          Inr (g\<lparr>state := (state g)\<lparr>players := ps',
                 deck := rest @ (if top_three_known_by (state g) = Some observer_id
                                     \<and> 3 \<le> length ?d
                                 then drop (length ?d - 3) ?d else [])\<rparr>\<rparr>, r')"
    and s: "list_all2 (same_seat observer_id) ?ps ps'" by blast
  let ?g' = "g\<lparr>state := (state g)\<lparr>players := ps',
                 deck := rest @ (if top_three_known_by (state g) = Some observer_id
                                     \<and> 3 \<le> length ?d
                                 then drop (length ?d - 3) ?d else [])\<rparr>\<rparr>"
  have l: "length ps' = length ?ps" using s by (simp add: list_all2_lengthD)
  have seats: "(pid (?ps ! i) = observer_id \<longrightarrow> ps' ! i = ?ps ! i)
         \<and> (alive (?ps ! i) \<and> pid (?ps ! i) \<noteq> observer_id
              \<longrightarrow> length (hand (ps' ! i)) = length (hand (?ps ! i)))"
    if "i < length ?ps" for i
  proof -
    from s that have "same_seat observer_id (?ps ! i) (ps' ! i)" by (rule list_all2_nthD)
    then show ?thesis by (auto simp: same_seat_def hidden_from_def)
  qed
  have top: "3 \<le> length (deck (state ?g'))
            \<and> drop (length (deck (state ?g')) - 3) (deck (state ?g')) = drop (length ?d - 3) ?d"
    if "top_three_known_by (state g) = Some observer_id \<and> 3 \<le> length ?d"
    using that by simp
  show ?thesis
    by (rule exI [of _ ?g'], rule exI [of _ r'], rule conjI, rule d) (use l seats top in simp)
qed

theorem determinize_fidelity_witness:
  "game_inv ex_known \<and> top_three_known_by (state ex_known) = Some 0
   \<and> 3 \<le> length (deck (state ex_known))
   \<and> (\<exists>g' r'. determinize_game ex_known 0 [] = Inr (g', r')
         \<and> hand (players (state g') ! 0) = [DEFUSE]
         \<and> length (hand (players (state g') ! 1)) = 1
         \<and> drop (length (deck (state g')) - 3) (deck (state g'))
             = [ATTACK, NOPE, EXPLODING_KITTEN])"
proof -
  have inv: "game_inv ex_known"
    by (simp add: game_inv_def ex_known_def kittens_in_deck_def alive_players_def upt_rec)
  have a: "top_three_known_by (state ex_known) = Some 0" "3 \<le> length (deck (state ex_known))"
    "length (players (state ex_known)) = 2"
    "pid (players (state ex_known) ! 0) = 0" "pid (players (state ex_known) ! 1) \<noteq> 0"
    "alive (players (state ex_known) ! 1)" "hand (players (state ex_known) ! 0) = [DEFUSE]"
    "length (hand (players (state ex_known) ! 1)) = 1"
    "drop (length (deck (state ex_known)) - 3) (deck (state ex_known))
       = [ATTACK, NOPE, EXPLODING_KITTEN]"
    by (simp_all add: ex_known_def)
  from determinize_fidelity [OF inv, of 0 "[]"] obtain g' r' where
    g: "determinize_game ex_known 0 [] = Inr (g', r')"
       "\<forall>i < length (players (state ex_known)).
           (pid (players (state ex_known) ! i) = 0
              \<longrightarrow> players (state g') ! i = players (state ex_known) ! i)
         \<and> (alive (players (state ex_known) ! i) \<and> pid (players (state ex_known) ! i) \<noteq> 0
              \<longrightarrow> length (hand (players (state g') ! i))
                    = length (hand (players (state ex_known) ! i)))"
       "top_three_known_by (state ex_known) = Some 0 \<and> 3 \<le> length (deck (state ex_known))
          \<longrightarrow> 3 \<le> length (deck (state g'))
            \<and> drop (length (deck (state g')) - 3) (deck (state g'))
                = drop (length (deck (state ex_known)) - 3) (deck (state ex_known))"
    by blast
  from g(2) a(3) have "players (state g') ! 0 = players (state ex_known) ! 0"
    using a(4) by (metis zero_less_numeral)
  then have 1: "hand (players (state g') ! 0) = [DEFUSE]" using a(7) by simp
  from g(2) a(3) have 2: "length (hand (players (state g') ! 1)) = 1"
    using a(5,6,8) by (metis one_less_numeral_iff semiring_norm(76))
  from g(3) a(1,2,9) have 3: "drop (length (deck (state g')) - 3) (deck (state g'))
             = [ATTACK, NOPE, EXPLODING_KITTEN]" by simp
  show ?thesis using inv a(1,2) g(1) 1 2 3 by blast
qed

section \<open>Determinized games satisfy the invariant\<close>

lemma take_cards_prefix: "\<exists>m. snd (take_cards k h pool) = take m pool"
proof (induction k arbitrary: h pool)
  case 0
  show ?case by (rule exI [of _ "length pool"]) simp
next
  case (Suc k)
  show ?case
  proof (cases "pool = []")
    case True
    then show ?thesis using Suc [of h pool] by simp
  next
    case False
    from Suc [of "h @ [last pool]" "butlast pool"] obtain m where
      "snd (take_cards k (h @ [last pool]) (butlast pool)) = take m (butlast pool)" by blast
    then have "snd (take_cards (Suc k) h pool) = take (min m (length pool - 1)) pool"
      using False by (simp add: butlast_conv_take min.commute)
    then show ?thesis by blast
  qed
qed

lemma redistribute_prefix:
  "redistribute orig obs qs pool = Inr (qs', rest) \<Longrightarrow> \<exists>m. rest = take m pool"
proof (induction qs arbitrary: pool qs' rest)
  case Nil
  then have "rest = take (length pool) pool" by simp
  then show ?case by blast
next
  case (Cons p qs)
  show ?case
  proof (cases "hidden_from obs p")
    case True
    obtain h pool' where t: "take_cards (length (hand (orig ! pid p))) (hand p) pool = (h, pool')"
      by (cases "take_cards (length (hand (orig ! pid p))) (hand p) pool")
    from take_cards_prefix [of "length (hand (orig ! pid p))" "hand p" pool] t
    obtain m1 where m1: "pool' = take m1 pool" by auto
    from Cons.prems True t obtain qs1 where
      "redistribute orig obs qs pool' = Inr (qs1, rest)"
      by (auto split: if_splits sum.splits)
    from Cons.IH [OF this] obtain m2 where "rest = take m2 pool'" by blast
    then have "rest = take (min m2 m1) pool" using m1 by simp
    then show ?thesis by blast
  next
    case False
    with Cons.prems obtain qs1 where "redistribute orig obs qs pool = Inr (qs1, rest)"
      by (auto split: sum.splits)
    from Cons.IH [OF this] show ?thesis .
  qed
qed

lemma filter_take_le: "length (filter P (take m xs)) \<le> length (filter P xs)"
proof -
  have "length (filter P (take m xs)) + length (filter P (drop m xs)) = length (filter P xs)"
    by (metis append_take_drop_id filter_append length_append)
  then show ?thesis by simp
qed

lemma clean_concat:
  "clean_hands ps \<Longrightarrow> filter (\<lambda>c. c = EXPLODING_KITTEN) (concat (map hand (filter Q ps))) = []"
  by (induction ps) (auto simp: clean_hands_def filter_empty_conv)

lemma determinize_inv:
  assumes "game_inv g" "clean_hands (players (state g))"
    and "determinize_game g obs r = Inr (g', r')"
  shows "game_inv g'"
proof -
  let ?s = "state g"
  let ?ps = "players ?s"
  let ?d = "deck ?s"
  let ?K = "\<lambda>c. c = EXPLODING_KITTEN"
  let ?keep = "top_three_known_by ?s = Some obs \<and> 3 \<le> length ?d"
  let ?from_hands = "concat (map hand (filter (hidden_from obs) ?ps))"
  let ?part = "if ?keep then take (length ?d - 3) ?d else ?d"
  let ?top = "if ?keep then drop (length ?d - 3) ?d else []"
  from assms(1) have none: "None \<notin> set (discard ?s)" by (simp add: game_inv_def)
  obtain pool r1 where pool: "shuffle (?from_hands @ ?part) r = (pool, r1)"
    by (cases "shuffle (?from_hands @ ?part) r")
  from assms(3) none pool obtain ps' rest where
    red: "redistribute ?ps obs (map (\<lambda>p. if hidden_from obs p then p\<lparr>hand := []\<rparr> else p) ?ps) pool
            = Inr (ps', rest)"
    and g': "g' = g\<lparr>state := ?s\<lparr>players := ps', deck := rest @ ?top\<rparr>\<rparr>"
    by (auto simp: determinize_game_def clone_game_def Let_def split: sum.splits if_splits)
  from determinize_game_returns [OF assms(1), of obs r] assms(3) obtain psa resta where
    ga: "g' = g\<lparr>state := ?s\<lparr>players := psa, deck := resta @ ?top\<rparr>\<rparr>"
    and sa: "list_all2 (same_seat obs) ?ps psa" by auto
  have "players (state g') = ps'" using g' by simp
  moreover have "players (state g') = psa" using ga by simp
  ultimately have seats: "list_all2 (same_seat obs) ?ps ps'" using sa by simp
  have pids: "map pid ps' = map pid ?ps" and alives: "map alive ps' = map alive ?ps"
    using seats by (induction rule: list_all2_induct) (auto simp: same_seat_def)
  from redistribute_prefix [OF red] obtain m where m: "rest = take m pool" by blast
  have "length (filter ?K rest) \<le> length (filter ?K pool)" unfolding m by (rule filter_take_le)
  also have "\<dots> = length (filter ?K (?from_hands @ ?part))"
    using shuffle_count [of ?K "?from_hands @ ?part" r] pool by simp
  also have "\<dots> = length (filter ?K ?part)" using clean_concat [OF assms(2)] by simp
  finally have "length (filter ?K rest) + length (filter ?K ?top)
                  \<le> length (filter ?K ?part) + length (filter ?K ?top)" by simp
  also have "\<dots> = length (filter ?K ?d)"
  proof (cases ?keep)
    case True
    have "length (filter ?K (take (length ?d - 3) ?d)) + length (filter ?K (drop (length ?d - 3) ?d))
            = length (filter ?K ?d)"
      by (metis append_take_drop_id filter_append length_append)
    then show ?thesis using True by simp
  next
    case False
    then show ?thesis by auto
  qed
  finally have k: "kittens_in_deck (state g') \<le> kittens_in_deck ?s"
    by (simp add: g' kittens_in_deck_def)
  show ?thesis
    using pids alives k none by (intro inv_frame [OF assms(1)]) (simp_all add: g')
qed

text \<open>So a determinization of a game reached by legal play is again a game the playouts
  return from.\<close>

lemma determinize_play:
  assumes "game_inv g" "clean_hands (players (state g))"
    and "determinize_game g obs r = Inr (g', r')"
  shows "play_inv g'"
  using determinize_inv [OF assms] by (rule game_inv_play)

end
